theory Spec2Isabelle
  imports Complex_Main
begin

section \<open>Conventions of the embedding\<close>

text \<open>
  The scripts compute with JavaScript numbers: binary64 floating-point numbers. A finite
  number is modelled as the \<^typ>\<open>real\<close> it denotes. \<open>calculateGini\<close> is modelled with the
  rounding of each of its operations. The samplers and the simulations are modelled with
  exact arithmetic, and what is proved of them is stated for the inputs on which binary64
  arithmetic is exact (integer counts and sums up to \<open>2^53\<close>, a product that is its own
  rounding) or does not depend on the rounding. Where the source would go on with a NaN or
  an infinity the model says so with an explicit value.

  \<^verbatim>\<open>Math.random()\<close> is the only effect of the simulators. Every function that calls it
  takes the results of its calls as arguments: a single draw \<open>u\<close> where the source calls
  it once, a stream \<open>draws :: nat \<Rightarrow> real\<close> (the n-th call returns \<open>draws n\<close>) where the
  number of calls depends on the run. \<^verbatim>\<open>Math.random()\<close> returns a number in \<open>[0, 1)\<close>; the
  theorems carry that as a hypothesis. Console output is not modelled.

  An array index the source computes is an \<^typ>\<open>int\<close> (the fallback \<open>length - 1\<close> of an
  empty array is \<open>-1\<close>); a loop counter is a \<^typ>\<open>nat\<close>.
\<close>

datatype error = RangeError | NotModelled

text \<open>
  \<open>RangeError\<close> is the exception of \<^verbatim>\<open>Array(n)\<close> and \<^verbatim>\<open>new Array(n)\<close> for an invalid length,
  and of a call that spreads more arguments than the engine accepts. \<open>NotModelled\<close> is
  raised by nothing in the source: it marks the inputs on which the source goes on with
  numbers that the arithmetic of the model does not cover (a division by zero, a power
  with an infinite exponent or a non-positive base, an array entry set to NaN, a result
  that overflows to an infinity, an integer counter that has reached \<open>2^53\<close>).
\<close>

text \<open>\<^verbatim>\<open>xs.reduce((a, b) => a + b, 0)\<close>: a left fold from 0.\<close>

definition reduce_sum :: "real list \<Rightarrow> real" where
  "reduce_sum xs = foldl (\<lambda>a b. a + b) 0 xs"

section \<open>Binary64 arithmetic\<close>

text \<open>
  An arithmetic operation of the source on finite numbers returns the exact result rounded
  to the nearest binary64 number, ties to the even significand: 53 significant bits,
  exponents from \<open>-1022\<close> to 1023, subnormal numbers below. \<open>pow2 e\<close> is \<open>2^e\<close>;
  \<open>exponentOf x\<close> is the exponent of the binade of \<open>x\<close>, so that the binary64 numbers
  around \<open>x\<close> are the multiples of \<open>pow2 (exponentOf x - 52)\<close>. The two zeros are not
  distinguished.
\<close>

definition pow2 :: "int \<Rightarrow> real" where
  "pow2 e = (if 0 \<le> e then 2 ^ nat e else 1 / 2 ^ nat (- e))"

definition roundTiesToEven :: "real \<Rightarrow> int" where
  "roundTiesToEven q =
     (let f = \<lfloor>q\<rfloor> in
      if q - of_int f < 1 / 2 then f
      else if q - of_int f > 1 / 2 then f + 1
      else if even f then f else f + 1)"

definition exponentOf :: "real \<Rightarrow> int" where
  "exponentOf x = max \<lfloor>log 2 \<bar>x\<bar>\<rfloor> (- 1022)"

definition round64 :: "real \<Rightarrow> real" where
  "round64 x =
     (if x = 0 then 0
      else of_int (roundTiesToEven (x / pow2 (exponentOf x - 52))) * pow2 (exponentOf x - 52))"

text \<open>
  A rounded result of magnitude \<open>2^1024\<close> or more is an infinity in the source, which goes
  on with it; the model stops.
\<close>

definition fl :: "real \<Rightarrow> error + real" where
  "fl x = (if \<bar>round64 x\<bar> < 2 ^ 1024 then Inr (round64 x) else Inl NotModelled)"

section \<open>The threshold-crossing samplers\<close>

text \<open>
  \<^verbatim>\<open>generateIterations(growthRate, initialSample)\<close> of power_law_generator.js:
  \<^verbatim>\<open>
    let sample = initialSample; let iterations = 0;
    while (sample <= Math.random()) { sample *= 1 + growthRate; iterations++; }
    return iterations;
  \<close>
  The loop test is evaluated once per value of \<open>iterations\<close>, so the test at count \<open>n\<close>
  consumes the draw \<open>draws n\<close>. The loop may run forever: not returning is \<open>None\<close>.
\<close>

partial_function (option) generateIterations_loop ::
    "real \<Rightarrow> (nat \<Rightarrow> real) \<Rightarrow> real \<Rightarrow> nat \<Rightarrow> nat option" where
  "generateIterations_loop growthRate draws sample n =
     (if sample \<le> draws n
      then generateIterations_loop growthRate draws (sample * (1 + growthRate)) (n + 1)
      else Some n)"

definition generateIterations :: "real \<Rightarrow> real \<Rightarrow> (nat \<Rightarrow> real) \<Rightarrow> nat option" where
  "generateIterations growthRate initialSample draws =
     generateIterations_loop growthRate draws initialSample 0"

text \<open>
  \<^verbatim>\<open>iterations(initialSample, growthRate)\<close> of iteration_generator.js: the same body under
  the loop test \<^verbatim>\<open>while (sample > Math.random())\<close>.
\<close>

partial_function (option) iterations_loop ::
    "real \<Rightarrow> (nat \<Rightarrow> real) \<Rightarrow> real \<Rightarrow> nat \<Rightarrow> nat option" where
  "iterations_loop growthRate draws sample n =
     (if sample > draws n
      then iterations_loop growthRate draws (sample * (1 + growthRate)) (n + 1)
      else Some n)"

definition iterations :: "real \<Rightarrow> real \<Rightarrow> (nat \<Rightarrow> real) \<Rightarrow> nat option" where
  "iterations initialSample growthRate draws =
     iterations_loop growthRate draws initialSample 0"

section \<open>The growth step of power_law_generator.js\<close>

text \<open>
  The selection loop of \<^verbatim>\<open>preferentialAttachmentStep\<close>:
  \<^verbatim>\<open>
    for (let i = 0; i < values.length; i++) {
      cumsum += weights[i];
      if (r <= cumsum) { values[i]++; break; }
    }
  \<close>
  \<open>chooseElement r cumsum i ws\<close> runs it from index \<open>i\<close>, with \<open>ws\<close> the weights from
  \<open>i\<close> on, and returns the index whose value is incremented, \<open>None\<close> when the loop ends
  without incrementing anything.
\<close>

fun chooseElement :: "real \<Rightarrow> real \<Rightarrow> nat \<Rightarrow> real list \<Rightarrow> nat option" where
  "chooseElement r cumsum i [] = None"
| "chooseElement r cumsum i (w # ws) =
     (let cumsum' = cumsum + w in
      if r \<le> cumsum' then Some i else chooseElement r cumsum' (Suc i) ws)"

text \<open>
  \<^verbatim>\<open>weights = values.map((v) => Math.pow(v, 1 / (alpha - 1)))\<close>. For a positive base
  \<^verbatim>\<open>Math.pow\<close> is \<open>powr\<close>; with \<open>alpha = 1\<close> the exponent is infinite.
\<close>

definition attachmentWeights :: "real list \<Rightarrow> real \<Rightarrow> real list" where
  "attachmentWeights values alpha = map (\<lambda>v. v powr (1 / (alpha - 1))) values"

text \<open>
  \<open>u1\<close> is the draw that chooses the element, \<open>u2\<close> the draw that decides whether a new
  element is pushed.
\<close>

definition preferentialAttachmentStep ::
    "real list \<Rightarrow> real \<Rightarrow> real \<Rightarrow> real \<Rightarrow> real \<Rightarrow> error + real list" where
  "preferentialAttachmentStep values alpha newElementProbability u1 u2 =
     (if alpha = 1 \<or> (\<exists>v \<in> set values. v \<le> 0) then Inl NotModelled
      else
        (let weights = attachmentWeights values alpha;
             totalWeight = reduce_sum weights;
             r = u1 * totalWeight;
             values1 = (case chooseElement r 0 0 weights of
                          Some i \<Rightarrow> values[i := values ! i + 1]
                        | None \<Rightarrow> values)
         in Inr (if u2 < newElementProbability then values1 @ [1] else values1)))"

text \<open>
  \<^verbatim>\<open>generatePowerLawPreferential(alpha, xMin, steps, newElementProbability)\<close>: step
  \<open>step\<close> consumes the draws \<open>2 * step\<close> and \<open>2 * step + 1\<close>.
\<close>

function generatePowerLaw_loop ::
    "real \<Rightarrow> real \<Rightarrow> (nat \<Rightarrow> real) \<Rightarrow> nat \<Rightarrow> nat \<Rightarrow> real list \<Rightarrow> error + real list" where
  "generatePowerLaw_loop alpha newElementProbability draws steps step values =
     (if step < steps then
        (case preferentialAttachmentStep values alpha newElementProbability
                (draws (2 * step)) (draws (2 * step + 1)) of
           Inl e \<Rightarrow> Inl e
         | Inr values' \<Rightarrow>
             generatePowerLaw_loop alpha newElementProbability draws steps (step + 1) values')
      else Inr values)"
  by pat_completeness auto
termination
  by (relation "measure (\<lambda>(alpha, p, draws, steps, step, values). steps - step)") auto

declare generatePowerLaw_loop.simps [simp del]

definition generatePowerLawPreferential ::
    "real \<Rightarrow> real \<Rightarrow> nat \<Rightarrow> real \<Rightarrow> (nat \<Rightarrow> real) \<Rightarrow> error + real list" where
  "generatePowerLawPreferential alpha xMin steps newElementProbability draws =
     (if \<lfloor>xMin\<rfloor> < 0 \<or> \<lfloor>xMin\<rfloor> > 4294967295 then Inl RangeError
      else generatePowerLaw_loop alpha newElementProbability draws steps 0
             (replicate (nat \<lfloor>xMin\<rfloor>) 1))"

section \<open>The preferential-attachment samplers\<close>

text \<open>
  The loop of \<^verbatim>\<open>samplePreferentialAttachment\<close>:
  \<^verbatim>\<open>
    for (let j = 0; j < counts.length; j++) {
      cumulativeSum += counts[j];
      if (random <= cumulativeSum) { return j; }
    }
  \<close>
  run from index \<open>j\<close> over the counts from \<open>j\<close> on; \<open>None\<close> when it falls through.
\<close>

fun cumulativeScan :: "real \<Rightarrow> real \<Rightarrow> nat \<Rightarrow> real list \<Rightarrow> nat option" where
  "cumulativeScan random cumulativeSum j [] = None"
| "cumulativeScan random cumulativeSum j (c # cs) =
     (let cumulativeSum' = cumulativeSum + c in
      if random \<le> cumulativeSum' then Some j
      else cumulativeScan random cumulativeSum' (Suc j) cs)"

definition samplePreferentialAttachment :: "real list \<Rightarrow> real \<Rightarrow> int" where
  "samplePreferentialAttachment counts u =
     (let totalSum = reduce_sum counts in
      if totalSum = 0 then \<lfloor>u * real (length counts)\<rfloor>
      else
        (let random = u * totalSum in
         case cumulativeScan random 0 0 counts of
           Some j \<Rightarrow> int j
         | None \<Rightarrow> int (length counts) - 1))"

text \<open>
  The loop of \<^verbatim>\<open>preferentialAttachment(arraySize, iterations)\<close>: iteration \<open>i\<close> consumes
  the draw \<open>draws i\<close>. The entries are integers counted up from 0, and \<open>x + 1\<close> is exact
  in binary64 for an integer \<open>x\<close> below \<open>2^53\<close>; the model stops with \<open>NotModelled\<close> at an
  entry that has reached \<open>2^53\<close>, and at an index outside the array, where
  \<^verbatim>\<open>counts[selectedIndex]++\<close> would store NaN.
\<close>

function preferentialAttachment_loop ::
    "(nat \<Rightarrow> real) \<Rightarrow> nat \<Rightarrow> nat \<Rightarrow> real list \<Rightarrow> error + real list" where
  "preferentialAttachment_loop draws iters i counts =
     (if i < iters then
        (let selectedIndex = samplePreferentialAttachment counts (draws i) in
         if 0 \<le> selectedIndex \<and> selectedIndex < int (length counts)
            \<and> counts ! nat selectedIndex < 9007199254740992 then
           preferentialAttachment_loop draws iters (i + 1)
             (counts[nat selectedIndex := counts ! nat selectedIndex + 1])
         else Inl NotModelled)
      else Inr counts)"
  by pat_completeness auto
termination
  by (relation "measure (\<lambda>(draws, iters, i, counts). iters - i)") auto

declare preferentialAttachment_loop.simps [simp del]

text \<open>
  \<^verbatim>\<open>displaySortedHistogram(counts)\<close> only prints, but it evaluates
  \<^verbatim>\<open>Math.max(...counts)\<close>, which passes every entry as an argument of one call. An engine
  accepts a limited number of arguments and throws a RangeError beyond it; the limit is
  the engine's, not the repository's, and is the parameter \<open>argumentLimit\<close>. Nothing else
  in the function throws: the bar lengths passed to \<^verbatim>\<open>repeat\<close> are NaN or between 1 and 40
  for non-negative counts.
\<close>

definition displaySortedHistogram :: "nat \<Rightarrow> real list \<Rightarrow> error + unit" where
  "displaySortedHistogram argumentLimit counts =
     (if length counts > argumentLimit then Inl RangeError else Inr ())"

text \<open>
  \<^verbatim>\<open>preferentialAttachment(arraySize, iterations)\<close>. \<^verbatim>\<open>new Array(arraySize)\<close> throws a
  RangeError for a length above \<open>2^32 - 1\<close>; the array is returned after
  \<^verbatim>\<open>displaySortedHistogram(counts)\<close>.
\<close>

definition preferentialAttachment ::
    "nat \<Rightarrow> nat \<Rightarrow> nat \<Rightarrow> (nat \<Rightarrow> real) \<Rightarrow> error + real list" where
  "preferentialAttachment argumentLimit arraySize iters draws =
     (if arraySize > 4294967295 then Inl RangeError
      else
        (case preferentialAttachment_loop draws iters 0 (replicate arraySize 0) of
           Inl e \<Rightarrow> Inl e
         | Inr counts \<Rightarrow>
             (case displaySortedHistogram argumentLimit counts of
                Inl e \<Rightarrow> Inl e
              | Inr u \<Rightarrow> Inr counts)))"

text \<open>
  The loop of \<^verbatim>\<open>samplePreferentialAttachmentWithWeights\<close>:
  \<^verbatim>\<open>
    for (let j = 0; j < counts.length; j++) {
      cumulativeProbability += counts[j] / totalWeight;
      if (random <= cumulativeProbability) { return j; }
    }
  \<close>
\<close>

fun probabilityScan :: "real \<Rightarrow> real \<Rightarrow> real \<Rightarrow> nat \<Rightarrow> real list \<Rightarrow> nat option" where
  "probabilityScan random totalWeight cumulativeProbability j [] = None"
| "probabilityScan random totalWeight cumulativeProbability j (c # cs) =
     (let cumulativeProbability' = cumulativeProbability + c / totalWeight in
      if random \<le> cumulativeProbability' then Some j
      else probabilityScan random totalWeight cumulativeProbability' (Suc j) cs)"

text \<open>
  With \<open>totalWeight = 0\<close> every quotient is NaN or infinite; an empty array has no
  quotient and gets the fallback \<open>-1\<close>.
\<close>

definition samplePreferentialAttachmentWithWeights :: "real list \<Rightarrow> real \<Rightarrow> error + int" where
  "samplePreferentialAttachmentWithWeights counts u =
     (let totalWeight = reduce_sum counts in
      if totalWeight = 0 \<and> counts \<noteq> [] then Inl NotModelled
      else
        (let random = u in
         case probabilityScan random totalWeight 0 0 counts of
           Some j \<Rightarrow> Inr (int j)
         | None \<Rightarrow> Inr (int (length counts) - 1)))"

section \<open>The Gini coefficient\<close>

text \<open>
  \<^verbatim>\<open>sortedValues.reduce((acc, val) => acc + val, 0)\<close>, each addition rounded; \<open>sum64 acc vs\<close>
  runs it from the accumulator \<open>acc\<close> over the values \<open>vs\<close>.
\<close>

fun sum64 :: "real \<Rightarrow> real list \<Rightarrow> error + real" where
  "sum64 acc [] = Inr acc"
| "sum64 acc (v # vs) =
     (case fl (acc + v) of Inl e \<Rightarrow> Inl e | Inr acc' \<Rightarrow> sum64 acc' vs)"

text \<open>
  \<^verbatim>\<open>
    for (let i = 0; i < n; i++) { numerator += (2 * (i + 1) - n - 1) * sortedValues[i]; }
  \<close>
  run from index \<open>i\<close> over the sorted values from \<open>i\<close> on. The coefficient is a small
  integer, computed exactly; the product and the addition are rounded.
\<close>

fun giniNumerator :: "nat \<Rightarrow> nat \<Rightarrow> real \<Rightarrow> real list \<Rightarrow> error + real" where
  "giniNumerator n i numerator [] = Inr numerator"
| "giniNumerator n i numerator (v # vs) =
     (case fl ((2 * (real i + 1) - real n - 1) * v) of
        Inl e \<Rightarrow> Inl e
      | Inr term \<Rightarrow>
          (case fl (numerator + term) of
             Inl e \<Rightarrow> Inl e
           | Inr numerator' \<Rightarrow> giniNumerator n (Suc i) numerator' vs))"

text \<open>
  \<^verbatim>\<open>[...values].sort((a, b) => a - b)\<close> sorts finite numbers in ascending order: the
  rounded difference has the sign of the exact one.
\<close>

definition calculateGini :: "real list \<Rightarrow> error + real" where
  "calculateGini values =
     (let n = length values;
          sortedValues = sort values
      in case sum64 0 sortedValues of
           Inl e \<Rightarrow> Inl e
         | Inr valueSum \<Rightarrow>
             if valueSum = 0 then Inr 0
             else
               (case giniNumerator n 0 0 sortedValues of
                  Inl e \<Rightarrow> Inl e
                | Inr numerator \<Rightarrow>
                    (case fl (real n * valueSum) of
                       Inl e \<Rightarrow> Inl e
                     | Inr denominator \<Rightarrow> fl (numerator / denominator))))"

section \<open>The tree-sitter counter\<close>

text \<open>
  The parser is a library; the model starts from the syntax tree it returns. A node has
  its type, the rows of its start and end positions, and its children.
\<close>

datatype node = Node (ntype: string) (startRow: nat) (endRow: nat) (children: "node list")

definition isFunctionNode :: "node \<Rightarrow> bool" where
  "isFunctionNode nd =
     (ntype nd = ''function_definition'' \<or> ntype nd = ''function_declarator''
      \<or> ntype nd = ''method_definition'')"

text \<open>
  \<^verbatim>\<open>traverseNode(node)\<close> pushes to the \<^verbatim>\<open>lineCounts\<close> of the enclosing function; the
  model passes that array through.
\<close>

fun traverseNode :: "node \<Rightarrow> int list \<Rightarrow> int list" where
  "traverseNode (Node ty startLine endLine cs) lineCounts =
     (let lineCounts1 =
        (if ty = ''function_definition'' \<or> ty = ''function_declarator''
            \<or> ty = ''method_definition''
         then (let lineCount = int endLine - int startLine + 1 in
               if lineCount > 1 then lineCounts @ [lineCount] else lineCounts)
         else lineCounts)
      in fold traverseNode cs lineCounts1)"

definition countFunctionLines_treesitter :: "node \<Rightarrow> int list" where
  "countFunctionLines_treesitter rootNode = traverseNode rootNode []"

section \<open>The brace-matching counter\<close>

text \<open>
  A JavaScript string is the sequence of its UTF-16 code units, here integers; the
  input of the scanner is the string that \<^verbatim>\<open>fs.readFileSync(filePath, 'utf8')\<close> returns.
  \<open>lit\<close> gives the code units of an ASCII literal of the source.
\<close>

type_synonym jsString = "int list"

definition lit :: "string \<Rightarrow> jsString" where
  "lit s = map of_char s"

text \<open>
  \<^verbatim>\<open>trim()\<close> strips white space and line terminators at both ends: TAB, LF, VT, FF, CR,
  SPACE, NO-BREAK SPACE, U+1680, U+2000 to U+200A, U+2028, U+2029, U+202F, U+205F,
  U+3000 and U+FEFF.
\<close>

definition isWhiteSpace :: "int \<Rightarrow> bool" where
  "isWhiteSpace c =
     (c \<in> {9, 10, 11, 12, 13, 32, 160, 5760, 8232, 8233, 8239, 8287, 12288, 65279}
      \<or> (8192 \<le> c \<and> c \<le> 8202))"

definition trim :: "jsString \<Rightarrow> jsString" where
  "trim s = rev (dropWhile isWhiteSpace (rev (dropWhile isWhiteSpace s)))"

definition startsWith :: "jsString \<Rightarrow> jsString \<Rightarrow> bool" where
  "startsWith s p = (take (length p) s = p)"

text \<open>\<^verbatim>\<open>(line.match(/c/g) || []).length\<close>: the number of occurrences of a character.\<close>

definition occurrences :: "char \<Rightarrow> jsString \<Rightarrow> int" where
  "occurrences c line = int (count_list line (of_char c))"

text \<open>\<^verbatim>\<open>line.includes(c)\<close> for a one-character string.\<close>

definition includesChar :: "jsString \<Rightarrow> char \<Rightarrow> bool" where
  "includesChar line c = (of_char c \<in> set line)"

text \<open>\<^verbatim>\<open>content.split('\n')\<close>.\<close>

fun splitLines :: "jsString \<Rightarrow> jsString list" where
  "splitLines [] = [[]]"
| "splitLines (c # cs) =
     (if c = 10 then [] # splitLines cs
      else (case splitLines cs of
              l # ls \<Rightarrow> (c # l) # ls
            | [] \<Rightarrow> [[c]]))"

record scanner =
  inFunction :: bool
  functionStartLine :: nat
  braceCount :: int
  parenCount :: int
  lineCounts :: "int list"

definition initialScanner :: scanner where
  "initialScanner =
     \<lparr>inFunction = False, functionStartLine = 0, braceCount = 0, parenCount = 0,
      lineCounts = []\<rparr>"

text \<open>The test that makes the loop \<^verbatim>\<open>continue\<close>: an empty line or a comment.\<close>

definition skipped :: "jsString \<Rightarrow> bool" where
  "skipped line =
     (line = [] \<or> startsWith line (lit ''//'') \<or> startsWith line (lit ''/*'')
      \<or> startsWith line (lit ''*''))"

text \<open>The two branches that look for a function signature on line \<open>i\<close>.\<close>

definition detectStart :: "jsString list \<Rightarrow> nat \<Rightarrow> jsString \<Rightarrow> scanner \<Rightarrow> scanner" where
  "detectStart lines i line s =
     (let openParens = occurrences (CHR ''('') line;
          openBraces = occurrences (CHR ''{'') line;
          closeBraces = occurrences (CHR ''}'') line
      in
        if \<not> inFunction s \<and> openParens > 0 \<and> parenCount s = 0 \<and> openBraces > 0 then
          s\<lparr>inFunction := True, functionStartLine := i,
            braceCount := openBraces - closeBraces\<rparr>
        else if \<not> inFunction s \<and> openParens > 0 \<and> parenCount s = 0
                \<and> includesChar line (CHR '')'') \<and> \<not> includesChar line (CHR '';'') then
          (let nextLineIndex = i + 1 in
           if nextLineIndex < length lines \<and> startsWith (trim (lines ! nextLineIndex)) (lit ''{'')
           then s\<lparr>inFunction := True, functionStartLine := i, braceCount := 0\<rparr>
           else s)
        else s)"

text \<open>The block under \<^verbatim>\<open>if (inFunction)\<close>.\<close>

definition trackBraces :: "nat \<Rightarrow> jsString \<Rightarrow> scanner \<Rightarrow> scanner" where
  "trackBraces i line s =
     (let openBraces = occurrences (CHR ''{'') line;
          closeBraces = occurrences (CHR ''}'') line
      in
        if inFunction s then
          (let s1 = s\<lparr>braceCount := braceCount s + (openBraces - closeBraces)\<rparr> in
           if braceCount s1 = 0 \<and> (openBraces > 0 \<or> closeBraces > 0) then
             (let lineCount = int i - int (functionStartLine s1) + 1;
                  s2 = (if lineCount > 1
                        then s1\<lparr>lineCounts := lineCounts s1 @ [lineCount]\<rparr> else s1)
              in s2\<lparr>inFunction := False, parenCount := 0\<rparr>)
           else s1)
        else s)"

text \<open>One iteration of the loop over the lines, at index \<open>i\<close>.\<close>

definition processLine :: "jsString list \<Rightarrow> nat \<Rightarrow> scanner \<Rightarrow> scanner" where
  "processLine lines i s =
     (let line = trim (lines ! i) in
      if skipped line then s
      else
        (let openParens = occurrences (CHR ''('') line;
             closeParens = occurrences (CHR '')'') line;
             s1 = s\<lparr>parenCount := parenCount s + (openParens - closeParens)\<rparr>
         in trackBraces i line (detectStart lines i line s1)))"

text \<open>The scanner after the lines of index below \<open>k\<close>.\<close>

definition scanLines :: "jsString list \<Rightarrow> nat \<Rightarrow> scanner" where
  "scanLines lines k = fold (processLine lines) [0..<k] initialScanner"

definition countFunctionLines :: "jsString \<Rightarrow> int list" where
  "countFunctionLines content =
     (let lines = splitLines content in lineCounts (scanLines lines (length lines)))"

section \<open>Notions the properties are stated with\<close>

text \<open>
  The cumulative sum of the entries before index \<open>j\<close>, and the two half-open intervals
  between the cumulative sums before and after entry \<open>j\<close>: closed on the left, or closed
  on the right.
\<close>

definition cumulativeBefore :: "real list \<Rightarrow> nat \<Rightarrow> real" where
  "cumulativeBefore counts j = sum_list (take j counts)"

definition inIntervalClosedLeft :: "real list \<Rightarrow> nat \<Rightarrow> real \<Rightarrow> bool" where
  "inIntervalClosedLeft counts j r =
     (cumulativeBefore counts j \<le> r \<and> r < cumulativeBefore counts (Suc j))"

definition inIntervalClosedRight :: "real list \<Rightarrow> nat \<Rightarrow> real \<Rightarrow> bool" where
  "inIntervalClosedRight counts j r =
     (cumulativeBefore counts j < r \<and> r \<le> cumulativeBefore counts (Suc j))"

text \<open>The numerator of the Gini coefficient in exact arithmetic.\<close>

fun exactNumerator :: "nat \<Rightarrow> nat \<Rightarrow> real \<Rightarrow> real list \<Rightarrow> real" where
  "exactNumerator n i numerator [] = numerator"
| "exactNumerator n i numerator (v # vs) =
     exactNumerator n (Suc i) (numerator + (2 * (real i + 1) - real n - 1) * v) vs"

text \<open>The nodes of a syntax tree in the order \<open>traverseNode\<close> visits them.\<close>

fun preorder :: "node \<Rightarrow> node list" where
  "preorder (Node ty startLine endLine cs) =
     Node ty startLine endLine cs # concat (map preorder cs)"

definition nodeLineCount :: "node \<Rightarrow> int" where
  "nodeLineCount nd = int (endRow nd) - int (startRow nd) + 1"

section \<open>Properties of the binary64 rounding\<close>

lemma pow2_powr: "pow2 e = 2 powr (real_of_int e)"
  by (simp add: pow2_def powr_int)

lemma pow2_pos: "0 < pow2 e"
  by (simp add: pow2_def)

lemma exponentOf_eq:
  assumes "x \<noteq> 0" and "pow2 b \<le> \<bar>x\<bar>" and "\<bar>x\<bar> < pow2 (b + 1)" and "- 1022 \<le> b"
  shows "exponentOf x = b"
proof -
  have "0 < \<bar>x\<bar>" using assms(1) by simp
  then have "\<lfloor>log 2 \<bar>x\<bar>\<rfloor> = b"
    using assms(2,3) by (simp add: floor_log_eq_powr_iff pow2_powr)
  then show ?thesis using assms(4) by (simp add: exponentOf_def)
qed

lemma round64_eval:
  assumes "x \<noteq> 0" and "pow2 b \<le> \<bar>x\<bar>" and "\<bar>x\<bar> < pow2 (b + 1)" and "- 1022 \<le> b"
  shows "round64 x = of_int (roundTiesToEven (x / pow2 (b - 52))) * pow2 (b - 52)"
  using assms(1) exponentOf_eq [OF assms] by (simp add: round64_def)

lemma roundTiesToEven_of_int: "roundTiesToEven (of_int k) = k"
  by (simp add: roundTiesToEven_def)

lemma roundTiesToEven_nonneg: "0 \<le> y \<Longrightarrow> 0 \<le> roundTiesToEven y"
  by (auto simp: roundTiesToEven_def Let_def)

lemma roundTiesToEven_le:
  assumes "y \<le> of_int N"
  shows "roundTiesToEven y \<le> N"
proof (cases "y = of_int \<lfloor>y\<rfloor>")
  case True
  then have "roundTiesToEven y = \<lfloor>y\<rfloor>" by (simp add: roundTiesToEven_def Let_def)
  moreover have "\<lfloor>y\<rfloor> \<le> N" using assms by (simp add: floor_le_iff)
  ultimately show ?thesis by simp
next
  case False
  moreover have "of_int \<lfloor>y\<rfloor> \<le> y" by (rule of_int_floor_le)
  ultimately have "of_int \<lfloor>y\<rfloor> < y" by linarith
  with assms have "of_int \<lfloor>y\<rfloor> < (of_int N :: real)" by linarith
  then have "\<lfloor>y\<rfloor> < N" by simp
  moreover have "roundTiesToEven y \<le> \<lfloor>y\<rfloor> + 1" by (simp add: roundTiesToEven_def Let_def)
  ultimately show ?thesis by linarith
qed

text \<open>An integer of magnitude at most \<open>2^53\<close> is a binary64 number.\<close>

lemma round64_integer:
  assumes "x \<in> \<int>" and "\<bar>x\<bar> \<le> 9007199254740992"
  shows "round64 x = x"
proof (cases "x = 0")
  case True
  then show ?thesis by (simp add: round64_def)
next
  case False
  from assms(1) obtain m :: int where m: "x = of_int m" by (rule Ints_cases)
  with False have "1 \<le> \<bar>m\<bar>" by simp
  then have one: "1 \<le> \<bar>x\<bar>" using m by simp
  define b where "b = \<lfloor>log 2 \<bar>x\<bar>\<rfloor>"
  have b0: "0 \<le> b" unfolding b_def using one by simp
  have "log 2 \<bar>x\<bar> \<le> 53" using one assms(2) by (simp add: log_le_iff)
  then have b53: "b \<le> 53" unfolding b_def by (simp add: floor_le_iff)
  have low: "pow2 b \<le> \<bar>x\<bar>"
    using one unfolding b_def pow2_powr by (simp add: powr_le_iff)
  have e: "exponentOf x = b" using b0 by (simp add: exponentOf_def b_def)
  have "\<exists>k::int. x / pow2 (b - 52) = of_int k"
  proof (cases "b \<le> 52")
    case True
    then have "pow2 (b - 52) = 1 / 2 ^ nat (52 - b)" by (simp add: pow2_def)
    then have "x / pow2 (b - 52) = of_int (m * 2 ^ nat (52 - b))" using m by simp
    then show ?thesis by blast
  next
    case False
    with b53 have b: "b = 53" by simp
    then have "2 ^ 53 \<le> \<bar>x\<bar>" using low by (simp add: pow2_def)
    with assms(2) have "\<bar>x\<bar> = 2 ^ 53" by simp
    then have "x = 2 ^ 53 \<or> x = - (2 ^ 53)" by linarith
    then have "x / pow2 (b - 52) = of_int (2 ^ 52) \<or> x / pow2 (b - 52) = of_int (- (2 ^ 52))"
      unfolding b by (auto simp: pow2_def)
    then show ?thesis by blast
  qed
  then obtain k :: int where k: "x / pow2 (b - 52) = of_int k" by blast
  have "round64 x = of_int k * pow2 (b - 52)"
    using False by (simp add: round64_def e k roundTiesToEven_of_int)
  also have "\<dots> = x" using k pow2_pos [of "b - 52"] by (simp add: field_simps)
  finally show ?thesis .
qed

lemma fl_integer:
  assumes "x \<in> \<int>" and "\<bar>x\<bar> \<le> 9007199254740992"
  shows "fl x = Inr x"
proof -
  have "\<bar>x\<bar> < 2 ^ 1024" using assms(2) by (rule le_less_trans) simp
  then show ?thesis by (simp add: fl_def round64_integer [OF assms])
qed

text \<open>A quotient between 0 and 1 is rounded to a number between 0 and 1.\<close>

lemma round64_unit:
  assumes "0 \<le> q" and "q \<le> 1"
  shows "0 \<le> round64 q \<and> round64 q \<le> 1"
proof (cases "q = 0")
  case True
  then show ?thesis by (simp add: round64_def)
next
  case False
  with assms have pos: "0 < q" by simp
  define p where "p = exponentOf q - 52"
  have "log 2 \<bar>q\<bar> \<le> 0" using pos assms(2) by (simp add: log_le_iff)
  then have "\<lfloor>log 2 \<bar>q\<bar>\<rfloor> \<le> 0" by (simp add: floor_le_iff)
  then have "exponentOf q \<le> 0" by (simp add: exponentOf_def)
  then have p: "p < 0" unfolding p_def by simp
  define N :: int where "N = 2 ^ nat (- p)"
  have pw: "pow2 p = 1 / of_int N" using p by (simp add: pow2_def N_def)
  have Npos: "0 < N" by (simp add: N_def)
  have y: "q / pow2 p = q * of_int N" by (simp add: pw)
  have y0: "0 \<le> q * of_int N" using pos Npos by simp
  have yN: "q * of_int N \<le> of_int N" using assms(2) Npos by (simp add: mult_le_cancel_right1)
  have r: "round64 q = of_int (roundTiesToEven (q * of_int N)) / of_int N"
    using False by (simp add: round64_def p_def [symmetric] y pw)
  have "0 \<le> roundTiesToEven (q * of_int N)" using y0 by (rule roundTiesToEven_nonneg)
  moreover have "roundTiesToEven (q * of_int N) \<le> N" using yN by (rule roundTiesToEven_le)
  ultimately show ?thesis unfolding r using Npos by (simp add: divide_le_eq)
qed

lemma fl_unit:
  assumes "0 \<le> q" and "q \<le> 1"
  shows "\<exists>g. fl q = Inr g \<and> 0 \<le> g \<and> g \<le> 1"
proof -
  from round64_unit [OF assms] have "\<bar>round64 q\<bar> \<le> 1" by simp
  then have "\<bar>round64 q\<bar> < 2 ^ 1024" by (rule le_less_trans) simp
  with round64_unit [OF assms] show ?thesis by (simp add: fl_def)
qed

lemma fl_zero: "fl 0 = Inr 0"
  by (simp add: fl_def round64_def)

section \<open>Properties of the preferential-attachment samplers\<close>

subsection \<open>The cumulative scan\<close>

lemma foldl_add_sum_list: "foldl (\<lambda>a b. a + b) a xs = a + sum_list (xs :: real list)"
  by (induction xs arbitrary: a) simp_all

lemma reduce_sum_sum_list: "reduce_sum xs = sum_list xs"
  by (simp add: reduce_sum_def foldl_add_sum_list)

lemma cumulativeScan_range:
  "cumulativeScan r c j xs = Some k \<Longrightarrow> j \<le> k \<and> k < j + length xs"
proof (induction xs arbitrary: c j)
  case Nil
  then show ?case by simp
next
  case (Cons x xs)
  show ?case
  proof (cases "r \<le> c + x")
    case True
    with Cons.prems show ?thesis by simp
  next
    case False
    with Cons.prems have "cumulativeScan r (c + x) (Suc j) xs = Some k" by simp
    from Cons.IH [OF this] show ?thesis by simp
  qed
qed

lemma sum_list_take_nonneg:
  "\<forall>x \<in> set xs. (0::real) \<le> x \<Longrightarrow> 0 \<le> sum_list (take m xs)"
  by (rule sum_list_nonneg) (auto dest: in_set_takeD)

lemma cumulativeScan_interval:
  assumes "\<forall>x \<in> set xs. 0 \<le> x"
  shows "(cumulativeScan r c j xs = Some k) =
         (j \<le> k \<and> k < j + length xs \<and> r \<le> c + sum_list (take (Suc (k - j)) xs)
          \<and> (k = j \<or> c + sum_list (take (k - j) xs) < r))"
  using assms
proof (induction xs arbitrary: c j)
  case Nil
  then show ?case by simp
next
  case (Cons x xs)
  have nonneg: "\<forall>y \<in> set xs. 0 \<le> y" and x0: "0 \<le> x" using Cons.prems by simp_all
  show ?case
  proof (cases "r \<le> c + x")
    case True
    have "\<not> (j < k \<and> c + sum_list (take (k - j) (x # xs)) < r)"
    proof
      assume a: "j < k \<and> c + sum_list (take (k - j) (x # xs)) < r"
      then obtain m where m: "k - j = Suc m" by (cases "k - j") auto
      have "0 \<le> sum_list (take m xs)" using nonneg by (rule sum_list_take_nonneg)
      with a m True show False by simp
    qed
    with True show ?thesis by auto
  next
    case False
    have step: "cumulativeScan r c j (x # xs) = cumulativeScan r (c + x) (Suc j) xs"
      using False by simp
    show ?thesis
    proof (cases "k \<le> j")
      case True
      with False show ?thesis
        unfolding step Cons.IH [OF nonneg] by (cases "k = j") auto
    next
      case kj: False
      then obtain m where m: "k - j = Suc m" by (cases "k - j") auto
      then have m': "k - Suc j = m" by simp
      show ?thesis
        unfolding step Cons.IH [OF nonneg] m m' using kj False m
        by (cases m) (auto simp: add.assoc)
    qed
  qed
qed

lemma probabilityScan_cumulativeScan:
  "0 < T \<Longrightarrow> probabilityScan u T (c / T) j xs = cumulativeScan (u * T) c j xs"
proof (induction xs arbitrary: c j)
  case Nil
  then show ?case by simp
next
  case (Cons x xs)
  have eq: "c / T + x / T = (c + x) / T" by (simp add: add_divide_distrib)
  have le: "(u \<le> (c + x) / T) = (u * T \<le> c + x)"
    using Cons.prems by (simp add: pos_le_divide_eq)
  show ?case using Cons.IH [OF Cons.prems, of "c + x" "Suc j"]
    by (simp add: eq le Let_def)
qed

lemma floor_draw_range:
  assumes "0 \<le> u" "u < 1" "0 < n"
  shows "0 \<le> \<lfloor>u * real n\<rfloor> \<and> \<lfloor>u * real n\<rfloor> < int n"
proof -
  have "0 \<le> u * real n" using assms by simp
  moreover have "u * real n < real n" using assms by simp
  ultimately show ?thesis by (simp add: floor_less_iff)
qed

text \<open>All three return paths of the sampler give an index of the array.\<close>

lemma sampled_index_in_range:
  assumes "counts \<noteq> []" and "0 \<le> u" and "u < 1"
  shows "0 \<le> samplePreferentialAttachment counts u
         \<and> samplePreferentialAttachment counts u < int (length counts)"
proof (cases "reduce_sum counts = 0")
  case True
  then show ?thesis
    using floor_draw_range [OF assms(2,3), of "length counts"] assms(1)
    by (simp add: samplePreferentialAttachment_def)
next
  case False
  show ?thesis
  proof (cases "cumulativeScan (u * reduce_sum counts) 0 0 counts")
    case None
    with False assms(1) show ?thesis
      by (simp add: samplePreferentialAttachment_def)
  next
    case (Some k)
    from cumulativeScan_range [OF Some] have "k < length counts" by simp
    with False Some show ?thesis
      by (simp add: samplePreferentialAttachment_def)
  qed
qed

lemma cumulativeScan_found:
  "r \<le> c + sum_list xs \<Longrightarrow> xs \<noteq> [] \<Longrightarrow> \<exists>k. cumulativeScan r c j xs = Some k"
proof (induction xs arbitrary: c j)
  case Nil
  then show ?case by simp
next
  case (Cons x xs)
  show ?case
  proof (cases "r \<le> c + x")
    case True
    then show ?thesis by simp
  next
    case False
    with Cons.prems have "xs \<noteq> []" by (cases xs) auto
    moreover from Cons.prems have "r \<le> (c + x) + sum_list xs" by (simp add: add.assoc)
    ultimately obtain k where "cumulativeScan r (c + x) (Suc j) xs = Some k"
      using Cons.IH by blast
    with False show ?thesis by simp
  qed
qed

lemma cumulativeBefore_step:
  "j < length counts \<Longrightarrow>
     cumulativeBefore counts (Suc j) - cumulativeBefore counts j = counts ! j"
  by (simp add: cumulativeBefore_def take_Suc_conv_app_nth)

lemma cumulativeBefore_nonneg:
  "\<forall>c \<in> set counts. 0 \<le> c \<Longrightarrow> 0 \<le> cumulativeBefore counts j"
  unfolding cumulativeBefore_def by (rule sum_list_take_nonneg)

text \<open>The index the cumulative scan returns, for a draw below the total.\<close>

lemma cumulativeScan_selects:
  assumes nonneg: "\<forall>c \<in> set counts. 0 \<le> c" and r0: "0 \<le> r"
  shows "(cumulativeScan r 0 0 counts = Some j) =
         (j < length counts \<and> (inIntervalClosedRight counts j r \<or> (r = 0 \<and> j = 0)))"
proof -
  have p1: "0 \<le> cumulativeBefore counts (Suc j)" using nonneg by (rule cumulativeBefore_nonneg)
  have p0: "cumulativeBefore counts 0 = 0" by (simp add: cumulativeBefore_def)
  have "(cumulativeScan r 0 0 counts = Some j) =
        (j < length counts \<and> r \<le> cumulativeBefore counts (Suc j)
         \<and> (j = 0 \<or> cumulativeBefore counts j < r))"
    using cumulativeScan_interval [OF nonneg, of r 0 0 j] by (simp add: cumulativeBefore_def)
  also have "\<dots> = (j < length counts \<and> (inIntervalClosedRight counts j r \<or> (r = 0 \<and> j = 0)))"
    using p1 p0 r0 unfolding inIntervalClosedRight_def by (cases "j = 0") auto
  finally show ?thesis .
qed

lemma Nats_nonneg_list:
  assumes "\<forall>c \<in> set counts. (c::real) \<in> \<nat>"
  shows "\<forall>c \<in> set counts. 0 \<le> c"
proof
  fix c assume "c \<in> set counts"
  with assms have "c \<in> \<nat>" by simp
  then show "0 \<le> c" by (rule Nats_cases) simp
qed

text \<open>
  The loop run with the scaled draw \<open>r\<close>, for non-negative counts and \<open>r\<close> between 0 and
  their sum: it returns an index, the one whose interval holds \<open>r\<close>.
\<close>

lemma cumulativeScan_selects_found:
  assumes nonneg: "\<forall>c \<in> set counts. 0 \<le> c" and S: "0 < sum_list counts"
    and r0: "0 \<le> r" and rS: "r \<le> sum_list counts"
  shows "((cumulativeScan r 0 0 counts = Some j) =
          (j < length counts \<and> (inIntervalClosedRight counts j r \<or> (r = 0 \<and> j = 0))))
         \<and> (\<exists>k<length counts. cumulativeScan r 0 0 counts = Some k
               \<and> cumulativeBefore counts (Suc k) - cumulativeBefore counts k = counts ! k)"
proof -
  have ne: "counts \<noteq> []" using S by auto
  from rS ne obtain k where k: "cumulativeScan r 0 0 counts = Some k"
    using cumulativeScan_found [of r 0 counts 0] by auto
  from cumulativeScan_range [OF k] have klen: "k < length counts" by simp
  from cumulativeScan_selects [OF nonneg r0] k klen cumulativeBefore_step [OF klen]
  show ?thesis by blast
qed

subsection \<open>The sampled index is in range\<close>

text \<open>
  Claim C10. For every non-empty array of non-negative counts and every draw in \<open>[0, 1)\<close>,
  \<open>samplePreferentialAttachment\<close> returns an index \<open>j\<close> with \<open>0 \<le> j < counts.length\<close>:
  in the all-zero branch (the floor of the draw times the length), when the scan returns,
  and in the fallback \<open>counts.length - 1\<close>.
\<close>

theorem samplePreferentialAttachment_in_range:
  assumes "counts \<noteq> []" and "\<forall>c \<in> set counts. 0 \<le> c" and "0 \<le> u" and "u < 1"
  shows "0 \<le> samplePreferentialAttachment counts u
         \<and> samplePreferentialAttachment counts u < int (length counts)"
  using assms(1,3,4) by (rule sampled_index_in_range)

theorem samplePreferentialAttachment_in_range_witness:
  "0 \<le> samplePreferentialAttachment [0, 0, 0] (1 / 2)
   \<and> samplePreferentialAttachment [0, 0, 0] (1 / 2) < int (length [0, 0, 0 :: real])"
proof -
  have h: "\<forall>c \<in> set [0, 0, 0 :: real]. 0 \<le> c" by simp
  show ?thesis
    using samplePreferentialAttachment_in_range [of "[0, 0, 0]" "1 / 2"] h by simp
qed

subsection \<open>The two samplers agree\<close>

text \<open>
  Claim C6. For every array of non-negative counts with a positive sum and every draw \<open>u\<close>
  in \<open>[0, 1)\<close>, \<open>samplePreferentialAttachmentWithWeights\<close>, which compares \<open>u\<close> with the
  cumulative quotients \<open>counts[j] / totalWeight\<close>, returns the index that
  \<open>samplePreferentialAttachment\<close> returns, which compares the scaled draw
  \<open>u * totalSum\<close> with the cumulative counts.
\<close>

theorem samplers_agree:
  assumes "\<forall>c \<in> set counts. 0 \<le> c" and "0 < reduce_sum counts" and "0 \<le> u" and "u < 1"
  shows "samplePreferentialAttachmentWithWeights counts u
         = Inr (samplePreferentialAttachment counts u)"
proof -
  let ?T = "reduce_sum counts"
  have "probabilityScan u ?T (0 / ?T) 0 counts = cumulativeScan (u * ?T) 0 0 counts"
    using assms(2) by (rule probabilityScan_cumulativeScan)
  then have "probabilityScan u ?T 0 0 counts = cumulativeScan (u * ?T) 0 0 counts" by simp
  with assms(2) show ?thesis
    by (simp add: samplePreferentialAttachmentWithWeights_def samplePreferentialAttachment_def
        split: option.split)
qed

theorem samplers_agree_witness:
  "samplePreferentialAttachmentWithWeights [1, 2, 1] (1 / 2)
   = Inr (samplePreferentialAttachment [1, 2, 1] (1 / 2))"
proof -
  have h: "\<forall>c \<in> set [1, 2, 1 :: real]. 0 \<le> c" by simp
  have S: "0 < reduce_sum [1, 2, 1]" by (simp add: reduce_sum_def)
  show ?thesis
    using samplers_agree [OF h S, of "1 / 2"] by simp
qed

subsection \<open>The interval of draws that selects an index\<close>

text \<open>
  Claim C2, as the code has it. Let the counts be non-negative integers with a positive
  sum \<open>S\<close> of at most \<open>2^53\<close>, so that the cumulative sums of the loop are exact, and let
  \<open>r\<close> between 0 and \<open>S\<close> be the value of \<^verbatim>\<open>random\<close>, the scaled draw. The loop of
  \<open>samplePreferentialAttachment\<close> returns \<open>j\<close> exactly when \<open>j\<close> is an index and \<open>r\<close> lies
  in the interval of \<open>counts[j]\<close> that is open at the cumulative sum before \<open>j\<close> and closed
  at the cumulative sum after it, or \<open>r = 0\<close> and \<open>j = 0\<close>. So the loop returns an index,
  the only one with that property, and its interval has length \<open>counts[j]\<close>: a share
  \<open>counts[j] / S\<close> of the scaled draws. \<open>samplePreferentialAttachment\<close> returns that index
  for a draw \<open>u\<close> whose product \<open>u * S\<close> is \<open>r\<close> without rounding.
\<close>

theorem samplePreferentialAttachment_interval:
  assumes "\<forall>c \<in> set counts. c \<in> \<nat>" and "0 < reduce_sum counts"
    and "reduce_sum counts \<le> 9007199254740992" and "0 \<le> r" and "r \<le> reduce_sum counts"
  shows "((cumulativeScan r 0 0 counts = Some j) =
          (j < length counts \<and> (inIntervalClosedRight counts j r \<or> (r = 0 \<and> j = 0))))
         \<and> (\<exists>k<length counts. cumulativeScan r 0 0 counts = Some k
               \<and> cumulativeBefore counts (Suc k) - cumulativeBefore counts k = counts ! k)
         \<and> (u * reduce_sum counts = r \<and> round64 r = r \<longrightarrow>
              (samplePreferentialAttachment counts u = int j)
              = (cumulativeScan r 0 0 counts = Some j))"
proof -
  have nonneg: "\<forall>c \<in> set counts. 0 \<le> c" using assms(1) by (rule Nats_nonneg_list)
  have S: "0 < sum_list counts" and rS: "r \<le> sum_list counts"
    using assms(2,5) by (simp_all add: reduce_sum_sum_list)
  note loop = cumulativeScan_selects_found [OF nonneg S assms(4) rS, of j]
  then obtain k where k: "cumulativeScan r 0 0 counts = Some k" by blast
  have "(samplePreferentialAttachment counts u = int j) = (cumulativeScan r 0 0 counts = Some j)"
    if "u * reduce_sum counts = r"
  proof -
    have "samplePreferentialAttachment counts u = int k"
      using assms(2) k that by (simp add: samplePreferentialAttachment_def)
    then show ?thesis using k by auto
  qed
  with loop show ?thesis by blast
qed

theorem samplePreferentialAttachment_interval_witness:
  "cumulativeScan 2 0 0 [1, 2, 1] = Some 1
   \<and> inIntervalClosedRight [1, 2, 1] 1 2
   \<and> cumulativeBefore [1, 2, 1] 2 - cumulativeBefore [1, 2, 1] 1 = 2
   \<and> samplePreferentialAttachment [1, 2, 1] (1 / 2) = 1"
proof -
  have h: "\<forall>c \<in> set [1, 2, 1::real]. c \<in> \<nat>" by simp
  have S: "reduce_sum [1, 2, 1] = 4" by (simp add: reduce_sum_def)
  have iv: "inIntervalClosedRight [1, 2, 1] 1 2"
    by (simp add: inIntervalClosedRight_def cumulativeBefore_def)
  have len: "cumulativeBefore [1, 2, 1] 2 - cumulativeBefore [1, 2, 1] 1 = 2"
    by (simp add: cumulativeBefore_def)
  have exact: "round64 2 = 2" by (rule round64_integer) simp_all
  from samplePreferentialAttachment_interval [of "[1, 2, 1]" 2 1 "1 / 2"] h
  have "cumulativeScan 2 0 0 [1, 2, 1] = Some 1"
    and "samplePreferentialAttachment [1, 2, 1] (1 / 2) = 1"
    using iv exact by (simp_all add: S)
  with iv len show ?thesis by simp
qed

text \<open>
  The draws at the ends of the intervals. With counts \<open>[0, 1]\<close> the draw 0 returns
  index 0, whose count is 0 and whose interval is empty, whichever end is taken as the
  closed one; the interval closed on the left that holds 0 is the one of index 1. With
  counts \<open>[1, 1]\<close> the scaled draw 1 returns index 0 and lies in the interval closed on
  the left of index 1.
\<close>

theorem samplePreferentialAttachment_boundary_draws:
  "samplePreferentialAttachment [0, 1] 0 = 0
   \<and> \<not> inIntervalClosedLeft [0, 1] 0 0 \<and> \<not> inIntervalClosedRight [0, 1] 0 0
   \<and> inIntervalClosedLeft [0, 1] 1 0
   \<and> samplePreferentialAttachment [1, 1] (1 / 2) = 0
   \<and> \<not> inIntervalClosedLeft [1, 1] 0 1 \<and> inIntervalClosedLeft [1, 1] 1 1"
  by (simp add: samplePreferentialAttachment_def reduce_sum_def inIntervalClosedLeft_def
      inIntervalClosedRight_def cumulativeBefore_def)

section \<open>Properties of the threshold-crossing samplers\<close>

text \<open>
  \<open>iterations\<close> never returns once the sample is above every draw that follows: the
  sample only grows, so the loop test stays true.
\<close>

lemma iterations_loop_never_returns:
  assumes ret: "iterations_loop g draws sample n = Some y"
  shows "0 \<le> g \<longrightarrow> \<not> (0 < sample \<and> (\<forall>k. draws k < sample))"
proof (rule iterations_loop.raw_induct
    [where P = "\<lambda>g draws sample n y. 0 \<le> g \<longrightarrow> \<not> (0 < sample \<and> (\<forall>k. draws k < sample))",
      OF _ ret])
  fix f :: "real \<Rightarrow> (nat \<Rightarrow> real) \<Rightarrow> real \<Rightarrow> nat \<Rightarrow> nat option"
    and g draws sample n y
  assume IH: "\<And>g draws sample n y. f g draws sample n = Some y \<Longrightarrow>
                0 \<le> g \<longrightarrow> \<not> (0 < sample \<and> (\<forall>k. draws k < sample))"
    and body: "(if draws n < sample then f g draws (sample * (1 + g)) (n + 1) else Some n)
               = Some y"
  show "0 \<le> g \<longrightarrow> \<not> (0 < sample \<and> (\<forall>k. draws k < sample))"
  proof (intro impI notI)
    assume g0: "0 \<le> g" and inv: "0 < sample \<and> (\<forall>k. draws k < sample)"
    then have "draws n < sample" by simp
    with body have rec: "f g draws (sample * (1 + g)) (n + 1) = Some y" by simp
    have le: "sample \<le> sample * (1 + g)" using inv g0 by (simp add: mult_le_cancel_left1)
    have "0 < sample * (1 + g)" using inv le by linarith
    moreover have "\<forall>k. draws k < sample * (1 + g)"
    proof
      fix k
      from inv have "draws k < sample" by simp
      with le show "draws k < sample * (1 + g)" by linarith
    qed
    ultimately show False using IH [OF rec] g0 by simp
  qed
qed

lemma iterations_diverges:
  assumes "0 \<le> g" and "0 < sample" and "\<forall>k. draws k < sample"
  shows "iterations_loop g draws sample n = None"
proof (cases "iterations_loop g draws sample n")
  case None
  then show ?thesis .
next
  case (Some y)
  from iterations_loop_never_returns [OF Some] assms show ?thesis by simp
qed

text \<open>
  From the initial sample 1/2 and the growth rate 1 a first draw below 1/2 is enough: the
  sample is 1 after the first iteration, above every draw.
\<close>

lemma iterations_diverges_from_half:
  assumes "\<forall>k. draws k < 1" and "draws 0 < 1 / 2"
  shows "iterations (1 / 2) 1 draws = None"
proof -
  have "iterations_loop 1 draws 1 1 = None"
    using assms(1) by (intro iterations_diverges) simp_all
  then show ?thesis
    using assms(2) by (simp add: iterations_def iterations_loop.simps [of 1 draws "1 / 2" 0])
qed

text \<open>
  In exact arithmetic \<open>generateIterations\<close> returns for every positive growth rate and
  every initial sample in \<open>(0, 1)\<close>: the sample reaches 1 after
  \<open>\<lceil>ln (1 / initialSample) / ln (1 + growthRate)\<rceil>\<close> iterations at the latest, and every
  draw is below 1. (The rounding of \<^verbatim>\<open>sample *= 1 + growthRate\<close> is not part of this
  model: in binary64 a growth rate below \<open>2^-53\<close> leaves \<open>1 + growthRate\<close> equal to 1 and
  the sample where it is.)
\<close>

lemma generateIterations_loop_returns:
  assumes "0 \<le> g" and "0 < sample" and "\<forall>k. draws k < 1" and "1 \<le> sample * (1 + g) ^ m"
  shows "\<exists>k. generateIterations_loop g draws sample n = Some k \<and> n \<le> k \<and> k \<le> n + m"
  using assms(2,4)
proof (induction m arbitrary: sample n)
  case 0
  moreover from assms(3) have "draws n < 1" by simp
  ultimately have "\<not> sample \<le> draws n" by simp
  then show ?case by (subst generateIterations_loop.simps) simp
next
  case (Suc m)
  show ?case
  proof (cases "sample \<le> draws n")
    case False
    then show ?thesis by (subst generateIterations_loop.simps) simp
  next
    case True
    have pos: "0 < sample * (1 + g)" using Suc.prems(1) assms(1) by simp
    have "1 \<le> sample * (1 + g) * (1 + g) ^ m" using Suc.prems(2) by (simp add: mult.assoc)
    from Suc.IH [OF pos this, of "n + 1"] obtain k where
      k: "generateIterations_loop g draws (sample * (1 + g)) (n + 1) = Some k"
         "n + 1 \<le> k" "k \<le> n + 1 + m" by blast
    have "generateIterations_loop g draws sample n = Some k"
      using True k(1) by (subst generateIterations_loop.simps) simp
    with k show ?thesis by auto
  qed
qed

lemma growth_reaches_one:
  assumes "0 < (g::real)" and "0 < (s::real)" and "s < 1"
  shows "1 \<le> s * (1 + g) ^ nat \<lceil>ln (1 / s) / ln (1 + g)\<rceil>"
proof -
  let ?N = "nat \<lceil>ln (1 / s) / ln (1 + g)\<rceil>"
  have lg: "0 < ln (1 + g)" using assms(1) by simp
  have "ln (1 / s) / ln (1 + g) \<le> real ?N" by linarith
  then have "ln (1 / s) \<le> real ?N * ln (1 + g)" using lg by (simp add: pos_divide_le_eq)
  also have "\<dots> = ln ((1 + g) ^ ?N)" using assms(1) by (simp add: ln_realpow)
  finally have "1 / s \<le> (1 + g) ^ ?N"
    using assms by simp
  then show ?thesis using assms(2) by (simp add: pos_divide_le_eq mult.commute)
qed

lemma generateIterations_terminates:
  assumes "0 < growthRate" and "0 < initialSample" and "initialSample < 1"
    and "\<forall>k. 0 \<le> draws k \<and> draws k < 1"
  shows "\<exists>k. generateIterations growthRate initialSample draws = Some k
             \<and> k \<le> nat \<lceil>ln (1 / initialSample) / ln (1 + growthRate)\<rceil>"
proof -
  have d: "\<forall>k. draws k < 1" using assms(4) by simp
  have g: "0 \<le> growthRate" using assms(1) by simp
  from generateIterations_loop_returns [OF g assms(2) d growth_reaches_one [OF assms(1,2,3)], of 0]
  show ?thesis by (auto simp: generateIterations_def)
qed

text \<open>
  Claim C3. The two samplers are fed the same growth rate 1, the same initial sample 1/2
  and the same draws, all 3/4. \<open>iterations\<close> tests \<open>sample > draw\<close>, which fails at once,
  and returns 0; \<open>generateIterations\<close> tests \<open>sample \<le> draw\<close>, runs its body once and
  returns 1.
\<close>

theorem threshold_samplers_differ:
  "iterations (1 / 2) 1 (\<lambda>n. 3 / 4) = Some 0
   \<and> generateIterations 1 (1 / 2) (\<lambda>n. 3 / 4) = Some 1"
  by (simp add: iterations_def generateIterations_def
      iterations_loop.simps generateIterations_loop.simps)

text \<open>
  Claim C4. On the growth rate 1, the initial sample 1/2 and the draws all 1/4,
  \<open>iterations\<close> does not return: the sample 1/2, 1, 2, ... is above every draw.
  \<open>generateIterations\<close> returns on the same input, where every product is exact; in
  exact arithmetic it returns on every input (\<open>generateIterations_terminates\<close>).
\<close>

theorem iterations_runs_forever:
  "iterations (1 / 2) 1 (\<lambda>n. 1 / 4) = None
   \<and> generateIterations 1 (1 / 2) (\<lambda>n. 1 / 4) = Some 0"
proof -
  have "iterations_loop 1 (\<lambda>n. 1 / 4) (1 / 2) 0 = None"
    by (rule iterations_diverges) simp_all
  then show ?thesis
    by (simp add: iterations_def generateIterations_def generateIterations_loop.simps)
qed

section \<open>Properties of the Gini coefficient\<close>

subsection \<open>The numerator in exact arithmetic\<close>

lemma exactNumerator_acc:
  "exactNumerator n i (a + b) vs = exactNumerator n i a vs + b"
proof (induction vs arbitrary: i a)
  case Nil
  then show ?case by simp
next
  case (Cons v vs)
  have e: "a + b + (2 * (real i + 1) - real n - 1) * v
           = (a + (2 * (real i + 1) - real n - 1) * v) + b" by simp
  show ?case unfolding exactNumerator.simps e by (rule Cons.IH)
qed

lemma exactNumerator_shift:
  "exactNumerator (Suc n) (Suc i) a vs = exactNumerator n i a vs + sum_list vs"
proof (induction vs arbitrary: i a)
  case Nil
  then show ?case by simp
next
  case (Cons v vs)
  have "a + (2 * (real (Suc i) + 1) - real (Suc n) - 1) * v
        = (a + (2 * (real i + 1) - real n - 1) * v) + v"
    by (simp add: algebra_simps)
  then have "exactNumerator (Suc n) (Suc i) a (v # vs)
             = exactNumerator (Suc n) (Suc (Suc i)) ((a + (2 * (real i + 1) - real n - 1) * v) + v) vs"
    by (simp only: exactNumerator.simps)
  also have "\<dots> = exactNumerator n (Suc i) (a + (2 * (real i + 1) - real n - 1) * v) vs
                    + v + sum_list vs"
    by (simp only: Cons.IH exactNumerator_acc)
  finally show ?case by simp
qed

lemma sorted_sum_list_lower:
  "sorted (x # xs) \<Longrightarrow> real (length xs) * x \<le> sum_list (xs :: real list)"
proof (induction xs)
  case Nil
  then show ?case by simp
next
  case (Cons y ys)
  then have "real (length ys) * x \<le> sum_list ys" and "x \<le> y" by simp_all
  then show ?case by (simp add: algebra_simps)
qed

lemma exactNumerator_nonneg:
  "sorted vs \<Longrightarrow> 0 \<le> exactNumerator (length vs) 0 0 vs"
proof (induction vs)
  case Nil
  then show ?case by simp
next
  case (Cons v vs)
  have s: "sorted vs" using Cons.prems by simp
  have low: "real (length vs) * v \<le> sum_list vs" using Cons.prems by (rule sorted_sum_list_lower)
  have "exactNumerator (length (v # vs)) 0 0 (v # vs)
        = exactNumerator (Suc (length vs)) (Suc 0) (0 + (- real (length vs) * v)) vs"
    by (simp add: algebra_simps)
  also have "\<dots> = exactNumerator (length vs) 0 0 vs + sum_list vs - real (length vs) * v"
    using exactNumerator_acc [of "length vs" 0 0 "- (real (length vs) * v)" vs]
    by (simp add: exactNumerator_shift)
  finally show ?case using Cons.IH [OF s] low by simp
qed

lemma exactNumerator_upper:
  "\<forall>v \<in> set vs. 0 \<le> v \<Longrightarrow> i + length vs \<le> n \<Longrightarrow>
     exactNumerator n i a vs \<le> a + (real n - 1) * sum_list vs"
proof (induction vs arbitrary: i a)
  case Nil
  then show ?case by simp
next
  case (Cons v vs)
  have v0: "0 \<le> v" and rest: "\<forall>w \<in> set vs. 0 \<le> w" using Cons.prems(1) by simp_all
  have len: "Suc i + length vs \<le> n" using Cons.prems(2) by simp
  then have "real i + 1 \<le> real n" by linarith
  then have "2 * (real i + 1) - real n - 1 \<le> real n - 1" by argo
  then have c: "(2 * (real i + 1) - real n - 1) * v \<le> (real n - 1) * v"
    using v0 by (rule mult_right_mono)
  have "exactNumerator n i a (v # vs)
        \<le> (a + (2 * (real i + 1) - real n - 1) * v) + (real n - 1) * sum_list vs"
    using Cons.IH [OF rest len] by simp
  also have "\<dots> \<le> a + (real n - 1) * sum_list (v # vs)"
    using c by (simp add: algebra_simps)
  finally show ?case .
qed

lemma exactNumerator_replicate:
  "exactNumerator n i a (replicate m c) = a + c * (real m * (2 * real i + real m - real n))"
proof (induction m arbitrary: i a)
  case 0
  then show ?case by simp
next
  case (Suc m)
  show ?case by (simp add: Suc.IH algebra_simps)
qed

lemma all_equal_replicate:
  "\<forall>v \<in> set vs. v = c \<Longrightarrow> vs = replicate (length vs) c"
  by (induction vs) simp_all

subsection \<open>Integer entries: every operation but the last is exact\<close>

lemma sum_list_insort: "sum_list (insort x xs) = x + sum_list (xs :: real list)"
  by (induction xs) simp_all

lemma sum_list_sort: "sum_list (sort xs) = sum_list (xs :: real list)"
  by (induction xs) (simp_all add: sum_list_insort)

lemma Nats_list_nonneg:
  assumes "\<forall>v \<in> set vs. (v::real) \<in> \<nat>"
  shows "\<forall>v \<in> set vs. 0 \<le> v"
proof
  fix v assume "v \<in> set vs"
  with assms have "v \<in> \<nat>" by simp
  then show "0 \<le> v" by (rule Nats_cases) simp
qed

lemma Nats_sum_list: "\<forall>v \<in> set vs. (v::real) \<in> \<nat> \<Longrightarrow> sum_list vs \<in> \<nat>"
  by (induction vs) (simp_all add: Nats_add)

lemma sum64_exact:
  assumes "acc \<in> \<nat>" and "\<forall>v \<in> set vs. v \<in> \<nat>"
    and "acc + sum_list vs \<le> 9007199254740992"
  shows "sum64 acc vs = Inr (acc + sum_list vs)"
  using assms
proof (induction vs arbitrary: acc)
  case Nil
  then show ?case by simp
next
  case (Cons v vs)
  have v: "v \<in> \<nat>" and rest: "\<forall>w \<in> set vs. w \<in> \<nat>" using Cons.prems(2) by simp_all
  have next_nat: "acc + v \<in> \<nat>" using Cons.prems(1) v by (rule Nats_add)
  have "0 \<le> sum_list vs" by (rule sum_list_nonneg) (use Nats_list_nonneg [OF rest] in blast)
  then have "acc + v \<le> 9007199254740992" using Cons.prems(3) by simp
  moreover have "0 \<le> acc + v" using next_nat by (rule Nats_cases) simp
  moreover have "acc + v \<in> \<int>" using next_nat by (rule Nats_cases) simp
  ultimately have step: "fl (acc + v) = Inr (acc + v)" by (intro fl_integer) simp_all
  have "sum64 (acc + v) vs = Inr ((acc + v) + sum_list vs)"
    using Cons.prems(3) by (intro Cons.IH next_nat rest) (simp add: add.assoc)
  then show ?case by (simp add: step add.assoc)
qed

lemma giniNumerator_exact:
  assumes "acc \<in> \<int>" and "\<forall>v \<in> set vs. v \<in> \<nat>" and "i + length vs \<le> n"
    and "\<bar>acc\<bar> + (real n - 1) * sum_list vs \<le> 9007199254740992"
  shows "giniNumerator n i acc vs = Inr (exactNumerator n i acc vs)"
  using assms
proof (induction vs arbitrary: i acc)
  case Nil
  then show ?case by simp
next
  case (Cons v vs)
  let ?c = "2 * (real i + 1) - real n - 1"
  have v: "v \<in> \<nat>" and rest: "\<forall>w \<in> set vs. w \<in> \<nat>" using Cons.prems(2) by simp_all
  have v0: "0 \<le> v" using v by (rule Nats_cases) simp
  have vint: "v \<in> \<int>" using v by (rule Nats_cases) simp
  have s0: "0 \<le> sum_list vs" by (rule sum_list_nonneg) (use Nats_list_nonneg [OF rest] in blast)
  have len: "Suc i + length vs \<le> n" using Cons.prems(3) by simp
  then have n1: "real i + 1 \<le> real n" by linarith
  then have n0: "0 \<le> real n - 1" by linarith
  have cint: "?c \<in> \<int>" by simp
  have cabs: "\<bar>?c\<bar> \<le> real n - 1" using n1 by (simp add: abs_le_iff)
  have term_int: "?c * v \<in> \<int>" using cint vint by (rule Ints_mult)
  have "\<bar>?c * v\<bar> = \<bar>?c\<bar> * v" using v0 by (simp add: abs_mult)
  also have "\<dots> \<le> (real n - 1) * v" using cabs v0 by (rule mult_right_mono)
  finally have term_le: "\<bar>?c * v\<bar> \<le> (real n - 1) * v" .
  have split: "(real n - 1) * sum_list (v # vs) = (real n - 1) * v + (real n - 1) * sum_list vs"
    by (simp add: algebra_simps)
  have rest0: "0 \<le> (real n - 1) * sum_list vs" using n0 s0 by simp
  have bound: "\<bar>acc\<bar> + (real n - 1) * v + (real n - 1) * sum_list vs \<le> 9007199254740992"
    using Cons.prems(4) unfolding split by simp
  have term_small: "\<bar>?c * v\<bar> \<le> 9007199254740992" using term_le bound rest0 by linarith
  have f1: "fl (?c * v) = Inr (?c * v)" using term_int term_small by (rule fl_integer)
  have acc_int: "acc + ?c * v \<in> \<int>" using Cons.prems(1) term_int by (rule Ints_add)
  have acc_le: "\<bar>acc + ?c * v\<bar> \<le> \<bar>acc\<bar> + (real n - 1) * v" using term_le by linarith
  have acc_small: "\<bar>acc + ?c * v\<bar> \<le> 9007199254740992" using acc_le bound rest0 by linarith
  have f2: "fl (acc + ?c * v) = Inr (acc + ?c * v)" using acc_int acc_small by (rule fl_integer)
  have next_bound: "\<bar>acc + ?c * v\<bar> + (real n - 1) * sum_list vs \<le> 9007199254740992"
    using acc_le bound by linarith
  have "giniNumerator n (Suc i) (acc + ?c * v) vs = Inr (exactNumerator n (Suc i) (acc + ?c * v) vs)"
    using acc_int rest len next_bound by (rule Cons.IH)
  then show ?case by (simp only: giniNumerator.simps exactNumerator.simps f1 f2 sum.case)
qed

text \<open>
  Claim C5, as the code has it. For every non-empty list of non-negative integers whose
  sum times its length is at most \<open>2^53\<close>, \<open>calculateGini\<close> returns a value in
  \<open>[0, 1]\<close>, and it returns 0 when all entries are equal (to any \<open>c\<close>, zero included,
  where the guard on the sum applies).
\<close>

theorem calculateGini_bounds:
  assumes "values \<noteq> []" and "\<forall>v \<in> set values. v \<in> \<nat>"
    and "real (length values) * sum_list values \<le> 9007199254740992"
  shows "\<exists>g. calculateGini values = Inr g \<and> 0 \<le> g \<and> g \<le> 1
           \<and> ((\<forall>v \<in> set values. v = c) \<longrightarrow> g = 0)"
proof -
  let ?n = "length values" and ?s = "sort values"
  let ?S = "sum_list values"
  have nats: "\<forall>v \<in> set ?s. v \<in> \<nat>" using assms(2) by simp
  have nonneg: "\<forall>v \<in> set ?s. 0 \<le> v" using nats by (rule Nats_list_nonneg)
  have S: "sum_list ?s = ?S" by (rule sum_list_sort)
  have S0: "0 \<le> ?S" unfolding S [symmetric] by (rule sum_list_nonneg) (use nonneg in blast)
  have n1: "1 \<le> real ?n" using assms(1) by (cases "values") simp_all
  have Sle: "?S \<le> real ?n * ?S" using n1 S0 by (simp add: mult_le_cancel_right1)
  have total: "sum64 0 ?s = Inr ?S"
    using sum64_exact [of 0 ?s] nats Sle assms(3) by (simp add: S)
  show ?thesis
  proof (cases "?S = 0")
    case True
    then show ?thesis by (simp add: calculateGini_def total)
  next
    case False
    with S0 have Spos: "0 < ?S" by simp
    let ?N = "exactNumerator ?n 0 0 ?s"
    have bound: "\<bar>0\<bar> + (real ?n - 1) * sum_list ?s \<le> 9007199254740992"
    proof -
      have "(real ?n - 1) * ?S \<le> real ?n * ?S" using S0 by (simp add: mult_right_mono)
      with assms(3) show ?thesis by (simp add: S)
    qed
    have num: "giniNumerator ?n 0 0 ?s = Inr ?N"
      by (rule giniNumerator_exact [OF _ nats _ bound]) simp_all
    have den_int: "real ?n * ?S \<in> \<int>"
    proof -
      have "?S \<in> \<nat>" using assms(2) by (rule Nats_sum_list)
      then have "?S \<in> \<int>" by (rule Nats_cases) simp
      then show ?thesis by (intro Ints_mult) simp_all
    qed
    have npos: "0 < real ?n" using n1 by linarith
    have den0: "0 < real ?n * ?S" using npos Spos by (rule mult_pos_pos)
    have den: "fl (real ?n * ?S) = Inr (real ?n * ?S)"
      using den_int assms(3) den0 by (intro fl_integer) simp_all
    have lower: "0 \<le> ?N" using exactNumerator_nonneg [of ?s] by simp
    have "?N \<le> 0 + (real ?n - 1) * sum_list ?s"
      by (rule exactNumerator_upper [OF nonneg]) simp
    also have "\<dots> \<le> real ?n * ?S" using S0 by (simp add: S mult_right_mono)
    finally have upper: "?N \<le> real ?n * ?S" .
    have q0: "0 \<le> ?N / (real ?n * ?S)" using lower den0 by simp
    have q1: "?N / (real ?n * ?S) \<le> 1" using upper den0 by simp
    from fl_unit [OF q0 q1] obtain g where
      g: "fl (?N / (real ?n * ?S)) = Inr g" "0 \<le> g" "g \<le> 1" by blast
    have run: "calculateGini values = Inr g"
      using False by (simp add: calculateGini_def Let_def total num den g(1))
    have eq: "(\<forall>v \<in> set values. v = c) \<longrightarrow> g = 0"
    proof
      assume "\<forall>v \<in> set values. v = c"
      then have "\<forall>v \<in> set ?s. v = c" by simp
      then have "?s = replicate (length ?s) c" by (rule all_equal_replicate)
      then have r: "?s = replicate ?n c" by simp
      have "?N = exactNumerator ?n 0 0 (replicate ?n c)" using r by simp
      also have "\<dots> = 0" by (simp add: exactNumerator_replicate)
      finally have "fl (?N / (real ?n * ?S)) = Inr 0" by (simp add: fl_zero)
      with g(1) show "g = 0" by simp
    qed
    from run g(2,3) eq show ?thesis by blast
  qed
qed

theorem calculateGini_bounds_witness:
  "(\<exists>g. calculateGini [3, 1, 2] = Inr g \<and> 0 \<le> g \<and> g \<le> 1)
   \<and> calculateGini [2, 2, 2] = Inr 0 \<and> calculateGini [0, 0] = Inr 0"
proof -
  have h1: "\<forall>v \<in> set [3, 1, 2 :: real]. v \<in> \<nat>" by simp
  have h2: "\<forall>v \<in> set [2, 2, 2 :: real]. v \<in> \<nat>" by simp
  have e2: "\<forall>v \<in> set [2, 2, 2 :: real]. v = 2" by simp
  have h0: "\<forall>v \<in> set [0, 0 :: real]. v \<in> \<nat>" by simp
  have e0: "\<forall>v \<in> set [0, 0 :: real]. v = 0" by simp
  show ?thesis
    using calculateGini_bounds [of "[3, 1, 2]" 0, OF _ h1]
      calculateGini_bounds [of "[2, 2, 2]" 2, OF _ h2] e2
      calculateGini_bounds [of "[0, 0]" 0, OF _ h0] e0
    by auto
qed

subsection \<open>Five entries equal to 0.1\<close>

text \<open>
  The binary64 number nearest to 0.1 is \<open>3602879701896397 / 2^55\<close>. The roundings that
  \<open>calculateGini\<close> performs on five entries equal to it:
\<close>

lemma gini_fl_1: "fl (3602879701896397 / 36028797018963968) = Inr (3602879701896397 / 36028797018963968)"
  by (simp add: fl_def round64_eval [where b = "- 4"] pow2_def roundTiesToEven_def)

lemma gini_fl_2: "fl (3602879701896397 / 18014398509481984) = Inr (3602879701896397 / 18014398509481984)"
  by (simp add: fl_def round64_eval [where b = "- 3"] pow2_def roundTiesToEven_def)

lemma gini_fl_3: "fl (10808639105689191 / 36028797018963968) = Inr (1351079888211149 / 4503599627370496)"
  by (simp add: fl_def round64_eval [where b = "- 2"] pow2_def roundTiesToEven_def)

lemma gini_fl_4: "fl (14411518807585589 / 36028797018963968) = Inr (3602879701896397 / 9007199254740992)"
  by (simp add: fl_def round64_eval [where b = "- 2"] pow2_def roundTiesToEven_def)

lemma gini_fl_5: "fl (18014398509481985 / 36028797018963968) = Inr (1 / 2)"
  by (simp add: fl_def round64_eval [where b = "- 1"] pow2_def roundTiesToEven_def)

lemma gini_fl_6: "fl (- (3602879701896397 / 9007199254740992)) = Inr (- (3602879701896397 / 9007199254740992))"
  by (simp add: fl_def round64_eval [where b = "- 2"] pow2_def roundTiesToEven_def)

lemma gini_fl_7: "fl (- (3602879701896397 / 18014398509481984)) = Inr (- (3602879701896397 / 18014398509481984))"
  by (simp add: fl_def round64_eval [where b = "- 3"] pow2_def roundTiesToEven_def)

lemma gini_fl_8: "fl (- (10808639105689191 / 18014398509481984)) = Inr (- (1351079888211149 / 2251799813685248))"
  by (simp add: fl_def round64_eval [where b = "- 1"] pow2_def roundTiesToEven_def)

lemma gini_fl_9: "fl (- (1351079888211149 / 2251799813685248)) = Inr (- (1351079888211149 / 2251799813685248))"
  by (simp add: fl_def round64_eval [where b = "- 1"] pow2_def roundTiesToEven_def)

lemma gini_fl_10: "fl (- (7205759403792795 / 18014398509481984)) = Inr (- (7205759403792795 / 18014398509481984))"
  by (simp add: fl_def round64_eval [where b = "- 2"] pow2_def roundTiesToEven_def)

lemma gini_fl_11: "fl (3602879701896397 / 9007199254740992) = Inr (3602879701896397 / 9007199254740992)"
  by (simp add: fl_def round64_eval [where b = "- 2"] pow2_def roundTiesToEven_def)

lemma gini_fl_12: "fl (- (1 / 18014398509481984)) = Inr (- (1 / 18014398509481984))"
  by (simp add: fl_def round64_eval [where b = "- 54"] pow2_def roundTiesToEven_def)

lemma gini_fl_13: "fl (5 / 2) = Inr (5 / 2)"
  by (simp add: fl_def round64_eval [where b = "1"] pow2_def roundTiesToEven_def)

lemma gini_fl_14: "fl (- (1 / 45035996273704960)) = Inr (- (3602879701896397 / 162259276829213363391578010288128))"
  by (simp add: fl_def round64_eval [where b = "- 56"] pow2_def roundTiesToEven_def)

lemmas gini_fl = gini_fl_1 gini_fl_2 gini_fl_3 gini_fl_4 gini_fl_5 gini_fl_6 gini_fl_7
  gini_fl_8 gini_fl_9 gini_fl_10 gini_fl_11 gini_fl_12 gini_fl_13 gini_fl_14

text \<open>
  On the list of five entries 0.1 the sum is rounded to 0.5, and the numerator
  \<open>-0.4 - 0.2 + 0 + 0.2 + 0.4\<close> is rounded on the way to \<open>-2^(-54)\<close>: \<open>calculateGini\<close>
  returns \<open>-2.2204460492503132e-17\<close>, a negative number, for equal entries.
\<close>

theorem calculateGini_equal_entries_negative:
  "calculateGini (replicate 5 (3602879701896397 / 36028797018963968))
     = Inr (- (3602879701896397 / 162259276829213363391578010288128))
   \<and> - (3602879701896397 / 162259276829213363391578010288128) < (0::real)"
  by (simp add: calculateGini_def numeral_eq_Suc gini_fl fl_zero)

section \<open>Properties of the simulation\<close>

lemma sum_list_increment:
  "k < length xs \<Longrightarrow> sum_list (xs[k := xs ! k + 1]) = sum_list xs + (1::real)"
proof (induction xs arbitrary: k)
  case Nil
  then show ?case by simp
next
  case (Cons x xs)
  then show ?case by (cases k) simp_all
qed

lemma increment_entry:
  assumes "k < length counts" and "\<forall>c \<in> set counts. (c::real) \<in> \<nat>"
  shows "length (counts[k := counts ! k + 1]) = length counts
         \<and> (\<forall>c \<in> set (counts[k := counts ! k + 1]). c \<in> \<nat>)
         \<and> sum_list (counts[k := counts ! k + 1]) = sum_list counts + 1"
proof -
  have "counts ! k \<in> \<nat>" using assms by simp
  then have new: "counts ! k + 1 \<in> \<nat>" by simp
  have "set (counts[k := counts ! k + 1]) \<subseteq> insert (counts ! k + 1) (set counts)"
    by (rule set_update_subset_insert)
  with new assms(2) have "\<forall>c \<in> set (counts[k := counts ! k + 1]). c \<in> \<nat>" by blast
  moreover have "sum_list (counts[k := counts ! k + 1]) = sum_list counts + 1"
    using assms(1) by (rule sum_list_increment)
  ultimately show ?thesis by simp
qed

lemma entry_le_sum_list:
  "\<forall>c \<in> set counts. (0::real) \<le> c \<Longrightarrow> k < length counts \<Longrightarrow> counts ! k \<le> sum_list counts"
proof (induction counts arbitrary: k)
  case Nil
  then show ?case by simp
next
  case (Cons c counts)
  have rest: "0 \<le> sum_list counts" by (rule sum_list_nonneg) (use Cons.prems(1) in force)
  show ?case
  proof (cases k)
    case 0
    with rest show ?thesis by simp
  next
    case (Suc m)
    with Cons.prems have "counts ! m \<le> sum_list counts" by (intro Cons.IH) simp_all
    with Suc Cons.prems(1) show ?thesis by simp
  qed
qed

lemma Nats_real_nonneg: "\<forall>c \<in> set counts. (c::real) \<in> \<nat> \<Longrightarrow> \<forall>c \<in> set counts. 0 \<le> c"
proof
  fix c assume "\<forall>c \<in> set counts. c \<in> \<nat>" and "c \<in> set counts"
  then have "c \<in> \<nat>" by simp
  then show "0 \<le> c" by (rule Nats_cases) simp
qed

lemma preferentialAttachment_loop_invariant:
  assumes "\<forall>k. 0 \<le> draws k \<and> draws k < 1" and "counts \<noteq> []"
    and "\<forall>c \<in> set counts. c \<in> \<nat>" and "i \<le> iters"
    and "sum_list counts + real (iters - i) \<le> 9007199254740992"
  shows "\<exists>final. preferentialAttachment_loop draws iters i counts = Inr final
           \<and> length final = length counts \<and> (\<forall>c \<in> set final. c \<in> \<nat>)
           \<and> sum_list final = sum_list counts + real (iters - i)"
  using assms
proof (induction draws iters i counts rule: preferentialAttachment_loop.induct)
  case (1 draws iters i counts)
  show ?case
  proof (cases "i < iters")
    case False
    with "1.prems" show ?thesis
      by (subst preferentialAttachment_loop.simps) simp
  next
    case True
    let ?x = "samplePreferentialAttachment counts (draws i)"
    let ?counts' = "counts[nat ?x := counts ! nat ?x + 1]"
    have d: "0 \<le> draws i" "draws i < 1" using "1.prems"(1) by simp_all
    have range: "0 \<le> ?x \<and> ?x < int (length counts)"
      using sampled_index_in_range [OF "1.prems"(2) d] .
    then have k: "nat ?x < length counts" by linarith
    have "counts ! nat ?x \<le> sum_list counts"
      using Nats_real_nonneg [OF "1.prems"(3)] k by (rule entry_le_sum_list)
    moreover have "1 \<le> real (iters - i)" using True by simp
    ultimately have small: "counts ! nat ?x < 9007199254740992"
      using "1.prems"(5) by linarith
    from increment_entry [OF k "1.prems"(3)]
    have len: "length ?counts' = length counts" and nat': "\<forall>c \<in> set ?counts'. c \<in> \<nat>"
      and sum: "sum_list ?counts' = sum_list counts + 1" by simp_all
    have ne: "?counts' \<noteq> []" using "1.prems"(2) len by auto
    have le: "i + 1 \<le> iters" using True by simp
    have steps: "real (iters - i) = 1 + real (iters - (i + 1))" using True by simp
    have bound: "sum_list ?counts' + real (iters - (i + 1)) \<le> 9007199254740992"
      using "1.prems"(5) sum steps by simp
    have guard: "0 \<le> ?x \<and> ?x < int (length counts) \<and> counts ! nat ?x < 9007199254740992"
      using range small by simp
    from "1.IH" [OF True refl guard "1.prems"(1) ne nat' le bound]
    obtain final where f: "preferentialAttachment_loop draws iters (i + 1) ?counts' = Inr final"
      "length final = length ?counts'" "\<forall>c \<in> set final. c \<in> \<nat>"
      "sum_list final = sum_list ?counts' + real (iters - (i + 1))" by blast
    have run: "preferentialAttachment_loop draws iters i counts = Inr final"
      using True guard f(1) by (subst preferentialAttachment_loop.simps) (simp add: Let_def)
    have "sum_list final = sum_list counts + real (iters - i)"
      using f(4) sum steps by simp
    with run f(2,3) len show ?thesis by simp
  qed
qed

text \<open>
  Claim C9, as the code has it. For every \<open>arraySize\<close> from 1 to \<open>2^32 - 1\<close> that the
  engine accepts as a number of arguments, every number of iterations up to \<open>2^53\<close> and
  every sequence of draws in \<open>[0, 1)\<close>, \<open>preferentialAttachment\<close> returns an array of
  length \<open>arraySize\<close> whose entries are non-negative integers and sum to the number of
  iterations. In particular no step writes outside the array.
\<close>

theorem preferentialAttachment_counts:
  assumes "1 \<le> arraySize" and "arraySize \<le> 4294967295" and "arraySize \<le> argumentLimit"
    and "iters \<le> 9007199254740992" and "\<forall>k. 0 \<le> draws k \<and> draws k < 1"
  shows "\<exists>counts. preferentialAttachment argumentLimit arraySize iters draws = Inr counts
           \<and> length counts = arraySize \<and> (\<forall>c \<in> set counts. c \<in> \<nat>)
           \<and> sum_list counts = real iters"
proof -
  have ne: "replicate arraySize (0::real) \<noteq> []" using assms(1) by auto
  have nat0: "\<forall>c \<in> set (replicate arraySize (0::real)). c \<in> \<nat>" by simp
  have bound: "sum_list (replicate arraySize (0::real)) + real (iters - 0) \<le> 9007199254740992"
    using assms(4) by (simp add: sum_list_replicate)
  from preferentialAttachment_loop_invariant [OF assms(5) ne nat0 _ bound]
  obtain final where f:
    "preferentialAttachment_loop draws iters 0 (replicate arraySize 0) = Inr final"
    "length final = arraySize" "\<forall>c \<in> set final. c \<in> \<nat>" "sum_list final = real iters"
    by (auto simp: sum_list_replicate)
  have "preferentialAttachment argumentLimit arraySize iters draws = Inr final"
    using assms(2,3) f(1,2)
    by (simp add: preferentialAttachment_def displaySortedHistogram_def)
  with f show ?thesis by blast
qed

theorem preferentialAttachment_counts_witness:
  "preferentialAttachment 100 3 4 (\<lambda>n. 1 / 2) = Inr [0, 4, 0]
   \<and> (\<exists>counts. preferentialAttachment 100 3 4 (\<lambda>n. 1 / 2) = Inr counts
         \<and> length counts = 3 \<and> (\<forall>c \<in> set counts. c \<in> \<nat>) \<and> sum_list counts = real 4)"
proof -
  have d: "\<forall>k::nat. (0::real) \<le> 1 / 2 \<and> (1::real) / 2 < 1" by simp
  have run: "preferentialAttachment 100 3 4 (\<lambda>n. 1 / 2) = Inr [0, 4, 0]"
    by (simp add: preferentialAttachment_def displaySortedHistogram_def
        preferentialAttachment_loop.simps samplePreferentialAttachment_def reduce_sum_def
        numeral_3_eq_3)
  show ?thesis
    using preferentialAttachment_counts [of 3 100 4 "\<lambda>n. 1 / 2"] d run by simp
qed

text \<open>
  \<^verbatim>\<open>new Array(4294967296)\<close> throws: with \<open>arraySize = 2^32\<close> no array is returned,
  whatever the number of iterations and the draws.
\<close>

theorem preferentialAttachment_invalid_length:
  "preferentialAttachment 100 4294967296 0 (\<lambda>n. 0) = Inl RangeError"
  by (simp add: preferentialAttachment_def)

section \<open>Properties of the growth step\<close>

lemma chooseElement_cumulativeScan: "chooseElement r c i ws = cumulativeScan r c i ws"
  by (induction ws arbitrary: c i) (simp_all add: Let_def)

lemma attachmentWeights_positive:
  "\<forall>v \<in> set values. 0 < v \<Longrightarrow> \<forall>w \<in> set (attachmentWeights values alpha). 0 < w"
  by (auto simp: attachmentWeights_def)

lemma sum_list_positive:
  "xs \<noteq> [] \<Longrightarrow> \<forall>x \<in> set xs. (0::real) < x \<Longrightarrow> 0 < sum_list xs"
proof (induction xs)
  case Nil
  then show ?case by simp
next
  case (Cons x xs)
  have "0 \<le> sum_list xs" by (rule sum_list_nonneg) (use Cons.prems in force)
  with Cons.prems show ?case by simp
qed

lemma increment_determines_index:
  assumes "i < length values" and "k < length values"
  shows "(values[k := values ! k + 1] @ t = values[i := values ! i + (1::real)] @ t) = (k = i)"
proof
  assume eq: "values[k := values ! k + 1] @ t = values[i := values ! i + 1] @ t"
  then have "values[k := values ! k + 1] = values[i := values ! i + 1]" by simp
  then have "values[k := values ! k + 1] ! i = values[i := values ! i + 1] ! i" by simp
  then show "k = i" using assms by (cases "k = i") simp_all
next
  assume "k = i"
  then show "values[k := values ! k + 1] @ t = values[i := values ! i + 1] @ t" by simp
qed

lemma preferentialAttachmentStep_selects:
  assumes pos: "\<forall>v \<in> set values. 0 < v" and alpha: "alpha \<noteq> 1"
    and u0: "0 \<le> u1" and u1: "u1 < 1" and i: "i < length values"
  shows "(preferentialAttachmentStep values alpha p u1 u2
            = Inr (values[i := values ! i + 1] @ (if u2 < p then [1] else [])))
         = (inIntervalClosedRight (attachmentWeights values alpha) i
              (u1 * reduce_sum (attachmentWeights values alpha))
            \<or> (u1 * reduce_sum (attachmentWeights values alpha) = 0 \<and> i = 0))"
proof -
  let ?w = "attachmentWeights values alpha"
  let ?r = "u1 * reduce_sum ?w"
  let ?t = "if u2 < p then [1] else []"
  have len: "length ?w = length values" by (simp add: attachmentWeights_def)
  have ne: "?w \<noteq> []" using i len by auto
  have wpos: "\<forall>w \<in> set ?w. 0 < w" using pos by (rule attachmentWeights_positive)
  then have wnonneg: "\<forall>w \<in> set ?w. 0 \<le> w" by (simp add: less_imp_le)
  have T: "0 < sum_list ?w" using ne wpos by (rule sum_list_positive)
  have r0: "0 \<le> ?r" using u0 T by (simp add: reduce_sum_sum_list)
  have rT: "?r < sum_list ?w" using u1 T by (simp add: reduce_sum_sum_list)
  from rT ne obtain k where k: "cumulativeScan ?r 0 0 ?w = Some k"
    using cumulativeScan_found [of ?r 0 ?w 0] by auto
  have klen: "k < length values" using cumulativeScan_range [OF k] len by simp
  have nogate: "\<not> (alpha = 1 \<or> (\<exists>v \<in> set values. v \<le> 0))"
    using alpha pos by (auto simp: not_le)
  have run: "preferentialAttachmentStep values alpha p u1 u2
             = Inr (values[k := values ! k + 1] @ ?t)"
    unfolding preferentialAttachmentStep_def using nogate k
    by (simp add: chooseElement_cumulativeScan Let_def)
  have "(preferentialAttachmentStep values alpha p u1 u2
            = Inr (values[i := values ! i + 1] @ ?t)) = (k = i)"
    unfolding run using increment_determines_index [OF i klen, of ?t] by simp
  also have "\<dots> = (cumulativeScan ?r 0 0 ?w = Some i)" using k by auto
  also have "\<dots> = (i < length ?w \<and> (inIntervalClosedRight ?w i ?r \<or> (?r = 0 \<and> i = 0)))"
    by (rule cumulativeScan_selects [OF wnonneg r0])
  finally show ?thesis using i len by simp
qed

lemma weights_example: "attachmentWeights [1, 2] (3 / 2) = [1, 4]"
  by (simp add: attachmentWeights_def)

lemma preferentialAttachmentStep_keeps_values:
  assumes "alpha \<noteq> 1" and "\<forall>v \<in> set values. 1 \<le> v"
  shows "\<exists>values'. preferentialAttachmentStep values alpha p u1 u2 = Inr values'
           \<and> (\<forall>v \<in> set values'. 1 \<le> v) \<and> length values \<le> length values'"
proof -
  let ?w = "attachmentWeights values alpha"
  let ?values1 = "case chooseElement (u1 * reduce_sum ?w) 0 0 ?w of
                    Some i \<Rightarrow> values[i := values ! i + 1] | None \<Rightarrow> values"
  have nogate: "\<not> (alpha = 1 \<or> (\<exists>v \<in> set values. v \<le> 0))"
  proof -
    have "\<not> v \<le> 0" if "v \<in> set values" for v using assms(2) that by fastforce
    with assms(1) show ?thesis by blast
  qed
  have upd: "\<forall>v \<in> set (values[i := values ! i + 1]). 1 \<le> v" for i
  proof (cases "i < length values")
    case True
    then have "1 \<le> values ! i" using assms(2) by simp
    then have "1 \<le> values ! i + 1" by simp
    moreover have "set (values[i := values ! i + 1]) \<subseteq> insert (values ! i + 1) (set values)"
      by (rule set_update_subset_insert)
    ultimately show ?thesis using assms(2) by blast
  next
    case False
    then have "values[i := values ! i + 1] = values" by (simp add: list_update_beyond not_less)
    then show ?thesis using assms(2) by simp
  qed
  have v1: "(\<forall>v \<in> set ?values1. 1 \<le> v) \<and> length ?values1 = length values"
    using upd assms(2) by (simp split: option.split)
  have "preferentialAttachmentStep values alpha p u1 u2
        = Inr (if u2 < p then ?values1 @ [1] else ?values1)"
    unfolding preferentialAttachmentStep_def using nogate by (simp add: Let_def)
  with v1 show ?thesis by auto
qed

lemma generatePowerLaw_loop_keeps_values:
  assumes "alpha \<noteq> 1" and "\<forall>v \<in> set vs. 1 \<le> v"
  shows "\<exists>final. generatePowerLaw_loop alpha p draws steps step vs = Inr final
           \<and> (\<forall>v \<in> set final. 1 \<le> v)"
  using assms
proof (induction alpha p draws steps step vs rule: generatePowerLaw_loop.induct)
  case (1 alpha p draws steps step vs)
  show ?case
  proof (cases "step < steps")
    case False
    with "1.prems" show ?thesis by (subst generatePowerLaw_loop.simps) simp
  next
    case True
    from preferentialAttachmentStep_keeps_values [OF "1.prems"]
    obtain vs' where s:
      "preferentialAttachmentStep vs alpha p (draws (2 * step)) (draws (2 * step + 1))
         = Inr vs'" "\<forall>v \<in> set vs'. 1 \<le> v" by blast
    from "1.IH" [OF True s(1) "1.prems"(1) s(2)] obtain final where
      f: "generatePowerLaw_loop alpha p draws steps (step + 1) vs' = Inr final"
         "\<forall>v \<in> set final. 1 \<le> v" by blast
    have "generatePowerLaw_loop alpha p draws steps step vs = Inr final"
      using True s(1) f(1) by (subst generatePowerLaw_loop.simps) simp
    with f(2) show ?thesis by simp
  qed
qed

lemma generatePowerLawPreferential_values:
  assumes "alpha \<noteq> 1" and "0 \<le> xMin" and "xMin < 4294967296"
  shows "\<exists>final. generatePowerLawPreferential alpha xMin steps p draws = Inr final
           \<and> (\<forall>v \<in> set final. 1 \<le> v)"
proof -
  have "0 \<le> \<lfloor>xMin\<rfloor>" using assms(2) by simp
  moreover have "\<lfloor>xMin\<rfloor> \<le> 4294967295" using assms(3) by (simp add: floor_le_iff)
  moreover have "\<forall>v \<in> set (replicate (nat \<lfloor>xMin\<rfloor>) (1::real)). 1 \<le> v" by simp
  ultimately show ?thesis
    using generatePowerLaw_loop_keeps_values [OF assms(1), of "replicate (nat \<lfloor>xMin\<rfloor>) 1"]
    by (simp add: generatePowerLawPreferential_def not_less)
qed

lemma attachmentWeights_power:
  assumes "\<forall>v \<in> set values. 0 < v" and "1 / (alpha - 1) = real k"
  shows "attachmentWeights values alpha = map (\<lambda>v. v ^ k) values"
  unfolding attachmentWeights_def using assms by (intro map_cong) (simp_all add: powr_realpow)

lemma preferentialAttachmentStep_runs:
  assumes pos: "\<forall>v \<in> set values. 0 < v" and alpha: "alpha \<noteq> 1"
    and i: "i < length values"
    and k: "chooseElement (u1 * reduce_sum (attachmentWeights values alpha)) 0 0
              (attachmentWeights values alpha) = Some k"
  shows "(preferentialAttachmentStep values alpha p u1 u2
            = Inr (values[i := values ! i + 1] @ (if u2 < p then [1] else [])))
         = (k = i)"
proof -
  let ?w = "attachmentWeights values alpha"
  let ?t = "if u2 < p then [1] else []"
  have len: "length ?w = length values" by (simp add: attachmentWeights_def)
  have klen: "k < length values"
    using cumulativeScan_range [of _ 0 0 ?w k] k len by (simp add: chooseElement_cumulativeScan)
  have nogate: "\<not> (alpha = 1 \<or> (\<exists>v \<in> set values. v \<le> 0))"
    using alpha pos by (auto simp: not_le)
  have run: "preferentialAttachmentStep values alpha p u1 u2
             = Inr (values[k := values ! k + 1] @ ?t)"
    unfolding preferentialAttachmentStep_def using nogate k by (simp add: Let_def)
  show ?thesis unfolding run using increment_determines_index [OF i klen, of ?t] by simp
qed

text \<open>
  Claim C1, as the code has it. Let the values be positive integers and \<open>alpha\<close> such that
  the exponent \<open>1 / (alpha - 1)\<close> is a natural number \<open>k \<ge> 1\<close>, with the sum of the weights
  below \<open>2^53\<close>: the weights \<open>values[i]^k\<close>, their sum and the cumulative sums of the loop
  are then integers that binary64 holds exactly (\<^verbatim>\<open>Math.pow\<close> taken to return an integer
  power below \<open>2^53\<close> exactly). Let \<open>r\<close> between 0 and the sum of the weights be the value
  of the scaled draw. The loop of \<open>preferentialAttachmentStep\<close> selects index \<open>i\<close> exactly
  when \<open>r\<close> lies in the interval of index \<open>i\<close> between the cumulative sums of the weights
  (open on the left, closed on the right), or \<open>r = 0\<close> and \<open>i = 0\<close>. The length of that
  interval is the weight \<open>values[i]^k\<close>, so the element is selected with probability
  proportional to its weight, and the weights are the values themselves when \<open>alpha = 2\<close>.
  \<open>preferentialAttachmentStep\<close> increments \<open>values[i]\<close> for a draw \<open>u1\<close> whose product with
  the sum of the weights is \<open>r\<close> without rounding. By \<open>generatePowerLawPreferential_values\<close>
  the values of every growth step of \<open>generatePowerLawPreferential\<close> are at least 1.
\<close>

theorem preferentialAttachmentStep_weight_proportional:
  assumes "\<forall>v \<in> set values. v \<in> \<nat> \<and> 0 < v" and "1 / (alpha - 1) = real k" and "1 \<le> k"
    and "reduce_sum (attachmentWeights values alpha) < 9007199254740992"
    and "0 \<le> r" and "r \<le> reduce_sum (attachmentWeights values alpha)"
    and "i < length values"
  shows "attachmentWeights values alpha = map (\<lambda>v. v ^ k) values
         \<and> ((chooseElement r 0 0 (attachmentWeights values alpha) = Some i)
            = (inIntervalClosedRight (attachmentWeights values alpha) i r \<or> (r = 0 \<and> i = 0)))
         \<and> cumulativeBefore (attachmentWeights values alpha) (Suc i)
             - cumulativeBefore (attachmentWeights values alpha) i
           = values ! i ^ k
         \<and> (u1 * reduce_sum (attachmentWeights values alpha) = r \<and> round64 r = r \<longrightarrow>
              (preferentialAttachmentStep values alpha p u1 u2
                 = Inr (values[i := values ! i + 1] @ (if u2 < p then [1] else [])))
              = (chooseElement r 0 0 (attachmentWeights values alpha) = Some i))
         \<and> (alpha = 2 \<longrightarrow> attachmentWeights values alpha = values)"
proof -
  let ?w = "attachmentWeights values alpha"
  have pos: "\<forall>v \<in> set values. 0 < v" using assms(1) by simp
  have alpha: "alpha \<noteq> 1" using assms(2,3) by auto
  have a: "?w = map (\<lambda>v. v ^ k) values" using pos assms(2) by (rule attachmentWeights_power)
  have len: "length ?w = length values" by (simp add: attachmentWeights_def)
  have i: "i < length ?w" using assms(7) len by simp
  have ne: "?w \<noteq> []" using i by auto
  have wpos: "\<forall>w \<in> set ?w. 0 < w" using pos by (rule attachmentWeights_positive)
  then have wnonneg: "\<forall>w \<in> set ?w. 0 \<le> w" by (simp add: less_imp_le)
  have T: "0 < sum_list ?w" using ne wpos by (rule sum_list_positive)
  have rT: "r \<le> sum_list ?w" using assms(6) by (simp add: reduce_sum_sum_list)
  note loop = cumulativeScan_selects_found [OF wnonneg T assms(5) rT, of i]
  then obtain j where j: "chooseElement r 0 0 ?w = Some j"
    by (auto simp: chooseElement_cumulativeScan)
  have b: "(chooseElement r 0 0 ?w = Some i)
           = (inIntervalClosedRight ?w i r \<or> (r = 0 \<and> i = 0))"
    using loop i by (simp add: chooseElement_cumulativeScan)
  have "cumulativeBefore ?w (Suc i) - cumulativeBefore ?w i = ?w ! i"
    using i by (rule cumulativeBefore_step)
  also have "\<dots> = values ! i ^ k" using assms(7) by (simp add: a)
  finally have c: "cumulativeBefore ?w (Suc i) - cumulativeBefore ?w i = values ! i ^ k" .
  have d: "(preferentialAttachmentStep values alpha p u1 u2
              = Inr (values[i := values ! i + 1] @ (if u2 < p then [1] else [])))
           = (chooseElement r 0 0 ?w = Some i)"
    if "u1 * reduce_sum ?w = r"
  proof -
    have "chooseElement (u1 * reduce_sum ?w) 0 0 ?w = Some j" using j that by simp
    from preferentialAttachmentStep_runs [OF pos alpha assms(7) this, of p u2]
    show ?thesis using j by auto
  qed
  have e: "alpha = 2 \<longrightarrow> ?w = values"
  proof
    assume "alpha = 2"
    with assms(2) have "real k = 1" by simp
    then have "k = 1" by simp
    then show "?w = values" by (simp add: a)
  qed
  from a b c d e show ?thesis by blast
qed

theorem preferentialAttachmentStep_weight_proportional_witness:
  "attachmentWeights [1, 2] (3 / 2) = [1, 4]
   \<and> chooseElement (5 / 4) 0 0 (attachmentWeights [1, 2] (3 / 2)) = Some 1
   \<and> inIntervalClosedRight (attachmentWeights [1, 2] (3 / 2)) 1 (5 / 4)
   \<and> cumulativeBefore (attachmentWeights [1, 2] (3 / 2)) 2
       - cumulativeBefore (attachmentWeights [1, 2] (3 / 2)) 1 = 4
   \<and> preferentialAttachmentStep [1, 2] (3 / 2) 0 (1 / 4) 0 = Inr [1, 3]"
proof -
  have h: "\<forall>v \<in> set [1, 2 :: real]. v \<in> \<nat> \<and> 0 < v" by simp
  have k: "1 / (3 / 2 - 1) = real 2" by simp
  have S: "reduce_sum (attachmentWeights [1, 2] (3 / 2)) = 5"
    by (simp add: weights_example reduce_sum_def)
  have iv: "inIntervalClosedRight (attachmentWeights [1, 2] (3 / 2)) 1 (5 / 4)"
    by (simp add: weights_example inIntervalClosedRight_def cumulativeBefore_def)
  have exact: "round64 (5 / 4) = 5 / 4"
    by (simp add: round64_eval [where b = 0] pow2_def roundTiesToEven_def)
  have len: "cumulativeBefore (attachmentWeights [1, 2] (3 / 2)) 2
               - cumulativeBefore (attachmentWeights [1, 2] (3 / 2)) 1 = 4"
    by (simp add: weights_example cumulativeBefore_def)
  have prod: "1 / 4 * reduce_sum (attachmentWeights [1, 2] (3 / 2)) = 5 / 4"
    by (simp add: S)
  have "1 \<le> (2::nat)" and "reduce_sum (attachmentWeights [1, 2] (3 / 2)) < 9007199254740992"
    and "(0::real) \<le> 5 / 4" and "5 / 4 \<le> reduce_sum (attachmentWeights [1, 2] (3 / 2))"
    and "1 < length [1, 2 :: real]"
    by (simp_all add: S)
  from preferentialAttachmentStep_weight_proportional
         [of "[1, 2]" "3 / 2" 2 "5 / 4" 1 "1 / 4" 0 0, OF h k this]
  have "(chooseElement (5 / 4) 0 0 (attachmentWeights [1, 2] (3 / 2)) = Some 1)
          = (inIntervalClosedRight (attachmentWeights [1, 2] (3 / 2)) 1 (5 / 4)
             \<or> (5 / 4 = (0::real) \<and> (1::nat) = 0))"
    and "1 / 4 * reduce_sum (attachmentWeights [1, 2] (3 / 2)) = 5 / 4
           \<and> round64 (5 / 4) = 5 / 4 \<longrightarrow>
         (preferentialAttachmentStep [1, 2] (3 / 2) 0 (1 / 4) 0
            = Inr ([1, 2][1 := [1, 2] ! 1 + 1] @ (if (0::real) < 0 then [1] else [])))
         = (chooseElement (5 / 4) 0 0 (attachmentWeights [1, 2] (3 / 2)) = Some 1)"
    by blast+
  with iv prod exact
  have "chooseElement (5 / 4) 0 0 (attachmentWeights [1, 2] (3 / 2)) = Some 1"
    and "preferentialAttachmentStep [1, 2] (3 / 2) 0 (1 / 4) 0
           = Inr ([1, 2][1 := [1, 2] ! 1 + 1] @ (if (0::real) < 0 then [1] else []))"
    by blast+
  then have "chooseElement (5 / 4) 0 0 (attachmentWeights [1, 2] (3 / 2)) = Some 1"
    and "preferentialAttachmentStep [1, 2] (3 / 2) 0 (1 / 4) 0 = Inr [1, 3]"
    by simp_all
  with iv len show ?thesis by (simp only: weights_example simp_thms)
qed

text \<open>
  With the values \<open>[1, 2]\<close> and \<open>alpha = 3/2\<close> the weights are the squares \<open>[1, 4]\<close>. The
  draws in \<open>[0, 1)\<close> that increment \<open>values[0]\<close> are those of the interval \<open>[0, 1/5]\<close>, of
  length \<open>1/5\<close>, and not a share \<open>values[0] / (values[0] + values[1]) = 1/3\<close> of them.
\<close>

theorem preferentialAttachmentStep_not_value_proportional:
  "attachmentWeights [1, 2] (3 / 2) = [1, 4]
   \<and> {u. 0 \<le> u \<and> u < 1 \<and> preferentialAttachmentStep [1, 2] (3 / 2) 0 u 0 = Inr [2, 2]}
       = {0 .. 1 / 5}
   \<and> (1 / 5 - 0 :: real) \<noteq> [1, 2] ! 0 / sum_list [1, 2]"
proof -
  have pos: "\<forall>v \<in> set [1, 2 :: real]. 0 < v" by simp
  have sel: "(preferentialAttachmentStep [1, 2] (3 / 2) 0 u 0 = Inr [2, 2]) = (u \<le> 1 / 5)"
    if "0 \<le> u" "u < 1" for u
    using preferentialAttachmentStep_selects [OF pos _ that, of "3 / 2" 0 0 0] that
    by (auto simp: weights_example reduce_sum_def inIntervalClosedRight_def cumulativeBefore_def)
  have "{u. 0 \<le> u \<and> u < 1 \<and> preferentialAttachmentStep [1, 2] (3 / 2) 0 u 0 = Inr [2, 2]}
        = {0 .. 1 / 5}"
    using sel by auto
  then show ?thesis by (simp add: weights_example)
qed

section \<open>Properties of the line counters\<close>

lemma fold_traverseNode:
  assumes "\<And>c acc. c \<in> set cs \<Longrightarrow> traverseNode c acc = acc @ F c"
  shows "fold traverseNode cs acc = acc @ concat (map F cs)"
  using assms by (induction cs arbitrary: acc) simp_all

lemma filter_map_filter_concat:
  "filter P (map f (filter Q (concat (map g cs))))
     = concat (map (\<lambda>c. filter P (map f (filter Q (g c)))) cs)"
  by (induction cs) simp_all

lemma traverseNode_preorder:
  "traverseNode nd acc =
     acc @ filter (\<lambda>c. 1 < c) (map nodeLineCount (filter isFunctionNode (preorder nd)))"
proof (induction nd arbitrary: acc)
  case (Node ty startLine endLine cs)
  let ?F = "\<lambda>nd. filter (\<lambda>c. 1 < c) (map nodeLineCount (filter isFunctionNode (preorder nd)))"
  let ?nd = "Node ty startLine endLine cs"
  let ?H = "if isFunctionNode ?nd \<and> 1 < nodeLineCount ?nd then [nodeLineCount ?nd] else []"
  have kids: "\<And>acc. fold traverseNode cs acc = acc @ concat (map ?F cs)"
    by (rule fold_traverseNode) (rule Node.IH)
  have head: "traverseNode ?nd acc = fold traverseNode cs (acc @ ?H)"
    by (simp add: isFunctionNode_def nodeLineCount_def Let_def)
  have rest: "?F ?nd = ?H @ concat (map ?F cs)"
    using filter_map_filter_concat [of "\<lambda>c. 1 < c" nodeLineCount isFunctionNode preorder cs]
    by simp
  show ?case unfolding head kids rest by simp
qed

lemma scanLines_Suc: "scanLines lines (Suc k) = processLine lines k (scanLines lines k)"
  by (simp add: scanLines_def)

lemma trackBraces_record:
  "lineCounts (trackBraces i line s) = lineCounts s
   \<or> (lineCounts (trackBraces i line s)
         = lineCounts s @ [int i - int (functionStartLine (trackBraces i line s)) + 1]
       \<and> 1 < int i - int (functionStartLine (trackBraces i line s)) + 1
       \<and> \<not> inFunction (trackBraces i line s)
       \<and> braceCount (trackBraces i line s) = 0)"
  by (simp add: trackBraces_def Let_def)

lemma detectStart_lineCounts: "lineCounts (detectStart lines i line s) = lineCounts s"
  by (simp add: detectStart_def Let_def)

lemma processLine_record:
  "lineCounts (processLine lines i s) = lineCounts s
   \<or> (lineCounts (processLine lines i s)
         = lineCounts s @ [int i - int (functionStartLine (processLine lines i s)) + 1]
       \<and> 1 < int i - int (functionStartLine (processLine lines i s)) + 1
       \<and> \<not> inFunction (processLine lines i s)
       \<and> braceCount (processLine lines i s) = 0)"
proof (cases "skipped (trim (lines ! i))")
  case True
  then show ?thesis by (simp add: processLine_def)
next
  case False
  let ?line = "trim (lines ! i)"
  let ?s1 = "detectStart lines i ?line
     (s\<lparr>parenCount := parenCount s + (occurrences (CHR ''('') ?line - occurrences (CHR '')'') ?line)\<rparr>)"
  have p: "processLine lines i s = trackBraces i ?line ?s1"
    using False by (simp add: processLine_def Let_def)
  have l: "lineCounts ?s1 = lineCounts s" by (simp add: detectStart_lineCounts)
  show ?thesis unfolding p using trackBraces_record [of i ?line ?s1] l by simp
qed

lemma scanLines_counts_above_one: "\<forall>c \<in> set (lineCounts (scanLines lines k)). 1 < c"
proof (induction k)
  case 0
  then show ?case by (simp add: scanLines_def initialScanner_def)
next
  case (Suc k)
  from processLine_record [of lines k "scanLines lines k"] Suc show ?case
    unfolding scanLines_Suc by auto
qed

text \<open>
  The start line the scanner remembers is the line at which it went from outside to
  inside the function it is in, and it has been inside ever since.
\<close>

lemma processLine_start_kept:
  "inFunction s \<Longrightarrow> functionStartLine (processLine lines i s) = functionStartLine s"
  by (simp add: processLine_def detectStart_def trackBraces_def Let_def)

lemma processLine_enters:
  "\<not> inFunction s \<Longrightarrow> inFunction (processLine lines i s) \<Longrightarrow>
     functionStartLine (processLine lines i s) = i"
  by (auto simp: processLine_def detectStart_def trackBraces_def Let_def split: if_splits)

lemma processLine_appends:
  assumes "lineCounts (processLine lines i s) \<noteq> lineCounts s"
  shows "inFunction s \<and> \<not> inFunction (processLine lines i s)
         \<and> braceCount (processLine lines i s) = 0
         \<and> (0 < occurrences (CHR ''{'') (trim (lines ! i))
             \<or> 0 < occurrences (CHR ''}'') (trim (lines ! i)))
         \<and> 1 < int i - int (functionStartLine s) + 1
         \<and> lineCounts (processLine lines i s)
             = lineCounts s @ [int i - int (functionStartLine s) + 1]"
  using assms
  by (auto simp: processLine_def detectStart_def trackBraces_def Let_def split: if_splits)

lemma scanner_inside_since_start:
  "inFunction (scanLines lines k) \<Longrightarrow>
     functionStartLine (scanLines lines k) < k
     \<and> \<not> inFunction (scanLines lines (functionStartLine (scanLines lines k)))
     \<and> (\<forall>j. functionStartLine (scanLines lines k) < j \<and> j \<le> k
            \<longrightarrow> inFunction (scanLines lines j))"
proof (induction k)
  case 0
  then show ?case by (simp add: scanLines_def initialScanner_def)
next
  case (Suc k)
  let ?s = "scanLines lines k"
  have step: "scanLines lines (Suc k) = processLine lines k ?s" by (rule scanLines_Suc)
  show ?case
  proof (cases "inFunction ?s")
    case True
    then have same: "functionStartLine (scanLines lines (Suc k)) = functionStartLine ?s"
      unfolding step by (rule processLine_start_kept)
    from Suc.IH [OF True] Suc.prems show ?thesis
      unfolding same by (auto simp: le_Suc_eq)
  next
    case False
    then have here: "functionStartLine (scanLines lines (Suc k)) = k"
      using Suc.prems unfolding step by (rule processLine_enters)
    show ?thesis unfolding here using False Suc.prems by (auto simp: le_Suc_eq)
  qed
qed

lemma recorded_span:
  assumes "lineCounts (scanLines lines (Suc k)) \<noteq> lineCounts (scanLines lines k)"
  shows "\<exists>s<k. \<not> inFunction (scanLines lines s)
           \<and> (\<forall>j. s < j \<and> j \<le> k \<longrightarrow> inFunction (scanLines lines j))
           \<and> \<not> inFunction (scanLines lines (Suc k))
           \<and> braceCount (scanLines lines (Suc k)) = 0
           \<and> (0 < occurrences (CHR ''{'') (trim (lines ! k))
               \<or> 0 < occurrences (CHR ''}'') (trim (lines ! k)))
           \<and> lineCounts (scanLines lines (Suc k))
               = lineCounts (scanLines lines k) @ [int k - int s + 1]"
proof -
  let ?s = "scanLines lines k"
  from processLine_appends [of lines k ?s] assms
  have a: "inFunction ?s" "\<not> inFunction (scanLines lines (Suc k))"
    "braceCount (scanLines lines (Suc k)) = 0"
    "0 < occurrences (CHR ''{'') (trim (lines ! k))
       \<or> 0 < occurrences (CHR ''}'') (trim (lines ! k))"
    "lineCounts (scanLines lines (Suc k))
       = lineCounts ?s @ [int k - int (functionStartLine ?s) + 1]"
    unfolding scanLines_Suc by simp_all
  from scanner_inside_since_start [OF a(1)] a(2-5) show ?thesis by blast
qed

text \<open>
  Claim C7. The tree-sitter counter returns, for the function nodes of the tree in
  traversal order, the counts \<open>endLine - startLine + 1\<close> that are greater than 1. In the
  brace-matching counter the iteration at line \<open>k\<close> leaves the recorded counts as they
  are or appends one count, \<open>k - s + 1\<close>: \<open>s\<close> is an earlier line, before which the
  scanner was outside a function and after which it stayed inside one up to line \<open>k\<close>,
  where it leaves it. Every count the brace-matching counter returns is greater than 1.
\<close>

theorem function_line_counts:
  "countFunctionLines_treesitter rootNode
     = filter (\<lambda>c. 1 < c) (map nodeLineCount (filter isFunctionNode (preorder rootNode)))
   \<and> (k < length lines \<longrightarrow>
        lineCounts (scanLines lines (Suc k)) = lineCounts (scanLines lines k)
        \<or> (\<exists>s<k. \<not> inFunction (scanLines lines s)
              \<and> (\<forall>j. s < j \<and> j \<le> k \<longrightarrow> inFunction (scanLines lines j))
              \<and> \<not> inFunction (scanLines lines (Suc k))
              \<and> lineCounts (scanLines lines (Suc k))
                  = lineCounts (scanLines lines k) @ [int k - int s + 1]))
   \<and> (\<forall>c \<in> set (countFunctionLines content). 1 < c)"
proof -
  have a: "countFunctionLines_treesitter rootNode
     = filter (\<lambda>c. 1 < c) (map nodeLineCount (filter isFunctionNode (preorder rootNode)))"
    by (simp add: countFunctionLines_treesitter_def traverseNode_preorder)
  have b: "lineCounts (scanLines lines (Suc k)) = lineCounts (scanLines lines k)
        \<or> (\<exists>s<k. \<not> inFunction (scanLines lines s)
              \<and> (\<forall>j. s < j \<and> j \<le> k \<longrightarrow> inFunction (scanLines lines j))
              \<and> \<not> inFunction (scanLines lines (Suc k))
              \<and> lineCounts (scanLines lines (Suc k))
                  = lineCounts (scanLines lines k) @ [int k - int s + 1])"
  proof (cases "lineCounts (scanLines lines (Suc k)) = lineCounts (scanLines lines k)")
    case True
    then show ?thesis by simp
  next
    case False
    from recorded_span [OF False] show ?thesis by blast
  qed
  have c: "\<forall>c \<in> set (countFunctionLines content). 1 < c"
    by (simp add: countFunctionLines_def Let_def scanLines_counts_above_one)
  from a b c show ?thesis by blast
qed

theorem function_line_counts_witness:
  "countFunctionLines_treesitter
      (Node ''translation_unit'' 0 9
        [Node ''function_definition'' 0 2 [Node ''function_declarator'' 0 0 []],
         Node ''function_definition'' 4 4 []]) = [3]
   \<and> lineCounts (scanLines
        [lit ''int a;'', lit ''void f()'', lit ''{'', lit ''  x();'', lit ''}''] 4) = []
   \<and> lineCounts (scanLines
        [lit ''int a;'', lit ''void f()'', lit ''{'', lit ''  x();'', lit ''}''] (Suc 4)) = [4]
   \<and> (\<exists>s<4. \<not> inFunction (scanLines
          [lit ''int a;'', lit ''void f()'', lit ''{'', lit ''  x();'', lit ''}''] s)
         \<and> int 4 - int s + 1 = 4)
   \<and> countFunctionLines (lit ''int a;\<newline>void f()\<newline>{\<newline>  x();\<newline>}'') = [4]"
proof -
  let ?L = "[lit ''int a;'', lit ''void f()'', lit ''{'', lit ''  x();'', lit ''}'']"
  have tree: "filter (\<lambda>c. 1 < c) (map nodeLineCount (filter isFunctionNode (preorder
      (Node ''translation_unit'' 0 9
        [Node ''function_definition'' 0 2 [Node ''function_declarator'' 0 0 []],
         Node ''function_definition'' 4 4 []])))) = [3]"
    by code_simp
  have before: "lineCounts (scanLines ?L 4) = []"
    by code_simp
  have after: "lineCounts (scanLines ?L (Suc 4)) = [4]"
    by code_simp
  have whole: "countFunctionLines (lit ''int a;\<newline>void f()\<newline>{\<newline>  x();\<newline>}'') = [4]"
    by code_simp
  have len: "4 < length ?L" by simp
  from function_line_counts
      [of "Node ''translation_unit'' 0 9
            [Node ''function_definition'' 0 2 [Node ''function_declarator'' 0 0 []],
             Node ''function_definition'' 4 4 []]"
          4 ?L "lit ''int a;\<newline>void f()\<newline>{\<newline>  x();\<newline>}''"]
  have tree': "countFunctionLines_treesitter
      (Node ''translation_unit'' 0 9
        [Node ''function_definition'' 0 2 [Node ''function_declarator'' 0 0 []],
         Node ''function_definition'' 4 4 []]) = [3]"
    and span: "\<exists>s<4. \<not> inFunction (scanLines ?L s)
              \<and> (\<forall>j. s < j \<and> j \<le> 4 \<longrightarrow> inFunction (scanLines ?L j))
              \<and> \<not> inFunction (scanLines ?L (Suc 4))
              \<and> lineCounts (scanLines ?L (Suc 4)) = lineCounts (scanLines ?L 4) @ [int 4 - int s + 1]"
    using tree before after len by simp_all
  from span obtain s where s: "s < 4" "\<not> inFunction (scanLines ?L s)"
    "lineCounts (scanLines ?L (Suc 4)) = lineCounts (scanLines ?L 4) @ [int 4 - int s + 1]"
    by blast
  from s(3) have "int 4 - int s + 1 = 4" unfolding before after by simp
  with s(1,2) have "\<exists>s<4. \<not> inFunction (scanLines ?L s) \<and> int 4 - int s + 1 = 4" by blast
  with tree' before after whole show ?thesis by simp
qed

text \<open>
  Claim C8. A function with its opening brace on the line of its signature:
  \<^verbatim>\<open>
    void f() {
      x();
    }
  \<close>
  The brace depth is 1 after the first line and returns to 0 on the third. The scanner
  counts the braces of the first line twice (once when it detects the function, once in
  the block under \<open>inFunction\<close>): its \<open>braceCount\<close> is 2 after the first line and 1 after
  the third, it records nothing and it is still inside the function at the end. With the
  opening brace on a line of its own the same function is recorded, with 4 lines.
\<close>

theorem brace_scanner_misses_function:
  "countFunctionLines (lit ''void f() {\<newline>  x();\<newline>}'') = []
   \<and> braceCount (scanLines (splitLines (lit ''void f() {\<newline>  x();\<newline>}'')) 1) = 2
   \<and> scanLines (splitLines (lit ''void f() {\<newline>  x();\<newline>}'')) 3
       = \<lparr>inFunction = True, functionStartLine = 0, braceCount = 1, parenCount = 0,
          lineCounts = []\<rparr>
   \<and> countFunctionLines (lit ''void f()\<newline>{\<newline>  x();\<newline>}'') = [4]"
  by code_simp

end
